theory Spec2Isabelle
  imports Main "HOL-Library.Word"
begin

section \<open>Architecture and the width of Go's int\<close>

text \<open>
  \<^verbatim>\<open>utils.IntSize\<close> is 8 unless \<^verbatim>\<open>runtime.GOARCH\<close> is "386" or "arm", where it is 4
  (utils/int_type.go). On those two architectures Go's \<^verbatim>\<open>int\<close> has 32 bits, on amd64
  and arm64 it has 64.
\<close>

datatype goarch = GO386 | GOARM | GOAMD64 | GOARM64

definition IntSize :: "goarch \<Rightarrow> nat" where
  "IntSize g = (if g = GO386 \<or> g = GOARM then 4 else 8)"

definition int_bits :: "goarch \<Rightarrow> nat" where
  "int_bits g = (if g = GO386 \<or> g = GOARM then 32 else 64)"

text \<open>Arithmetic on \<^verbatim>\<open>int\<close> wraps around in two's complement.\<close>

definition go_int :: "goarch \<Rightarrow> int \<Rightarrow> int" where
  "go_int g x = signed_take_bit (int_bits g - 1) x"

text \<open>\<^verbatim>\<open>int64\<close> has 64 bits on every architecture.\<close>

definition go_int64 :: "int \<Rightarrow> int" where
  "go_int64 x = signed_take_bit 63 x"

section \<open>Block identifiers (file/block_id.go)\<close>

record BlockId =
  File :: string
  BlockNumber :: int

section \<open>The lock table (tx/concurrency/lock_table.go)\<close>

text \<open>
  \<^verbatim>\<open>locks map[file.BlockId]int\<close>: a missing key reads as 0.
\<close>

type_synonym LockTable = "BlockId \<rightharpoonup> int"

definition getLockVal :: "LockTable \<Rightarrow> BlockId \<Rightarrow> int" where
  "getLockVal lt b = (case lt b of None \<Rightarrow> 0 | Some v \<Rightarrow> v)"

definition hasXLock :: "LockTable \<Rightarrow> BlockId \<Rightarrow> bool" where
  "hasXLock lt b = (getLockVal lt b < 0)"

definition hasOtherSLocks :: "LockTable \<Rightarrow> BlockId \<Rightarrow> bool" where
  "hasOtherSLocks lt b = (getLockVal lt b > 1)"

text \<open>
  SLock and XLock loop under the table's mutex: test the grant condition, otherwise
  \<^verbatim>\<open>cond.Wait()\<close> and test the deadline. What the other goroutines did while this one
  waited is an input of the model: each wake-up brings the table as they left it and
  whether the context has expired by then. A call whose wake-ups run out is blocked
  (\<open>None\<close>). The result records how many times the call waited.
\<close>

datatype lock_error = LockAbort

record lock_result =
  lock_err :: "lock_error option"
  lock_table :: LockTable
  lock_waits :: nat

definition waited :: "lock_result \<Rightarrow> lock_result" where
  "waited r = r\<lparr>lock_waits := Suc (lock_waits r)\<rparr>"

fun SLock :: "goarch \<Rightarrow> LockTable \<Rightarrow> BlockId \<Rightarrow> (LockTable \<times> bool) list \<Rightarrow> lock_result option" where
  "SLock g lt b ws =
     (if \<not> hasXLock lt b
      then Some \<lparr>lock_err = None,
                 lock_table = lt(b \<mapsto> go_int g (getLockVal lt b + 1)),
                 lock_waits = 0\<rparr>
      else (case ws of
              [] \<Rightarrow> None
            | (lt', expired) # ws' \<Rightarrow>
                if expired
                then Some \<lparr>lock_err = Some LockAbort, lock_table = lt', lock_waits = 1\<rparr>
                else map_option waited (SLock g lt' b ws')))"

fun XLock :: "LockTable \<Rightarrow> BlockId \<Rightarrow> (LockTable \<times> bool) list \<Rightarrow> lock_result option" where
  "XLock lt b ws =
     (if \<not> hasOtherSLocks lt b
      then Some \<lparr>lock_err = None, lock_table = lt(b \<mapsto> - 1), lock_waits = 0\<rparr>
      else (case ws of
              [] \<Rightarrow> None
            | (lt', expired) # ws' \<Rightarrow>
                if expired
                then Some \<lparr>lock_err = Some LockAbort, lock_table = lt', lock_waits = 1\<rparr>
                else map_option waited (XLock lt' b ws')))"

definition Unlock :: "goarch \<Rightarrow> LockTable \<Rightarrow> BlockId \<Rightarrow> LockTable" where
  "Unlock g lt b =
     (let val = getLockVal lt b
      in if val > 1 then lt(b \<mapsto> go_int g (val - 1)) else lt(b := None))"

text \<open>
  A history of the table: the calls that returned without error, in the order in which
  they held the mutex when they changed the table. A call that cannot be granted in the
  state it meets is not part of such a history (\<open>None\<close>).
\<close>

datatype lock_call = CallSLock BlockId | CallXLock BlockId | CallUnlock BlockId

fun granted :: "lock_result option \<Rightarrow> LockTable option" where
  "granted None = None"
| "granted (Some r) = (if lock_err r = None then Some (lock_table r) else None)"

fun lock_step :: "goarch \<Rightarrow> LockTable \<Rightarrow> lock_call \<Rightarrow> LockTable option" where
  "lock_step g lt (CallSLock b) = granted (SLock g lt b [])"
| "lock_step g lt (CallXLock b) = granted (XLock lt b [])"
| "lock_step g lt (CallUnlock b) = Some (Unlock g lt b)"

fun lock_run :: "goarch \<Rightarrow> LockTable \<Rightarrow> lock_call list \<Rightarrow> LockTable option" where
  "lock_run g lt [] = Some lt"
| "lock_run g lt (c # cs) =
     (case lock_step g lt c of None \<Rightarrow> None | Some lt' \<Rightarrow> lock_run g lt' cs)"

text \<open>The shape the specification demands of one entry of the table.\<close>

fun lock_entry_ok :: "int option \<Rightarrow> bool" where
  "lock_entry_ok None = True"
| "lock_entry_ok (Some v) = (v = - 1 \<or> 0 < v)"

text \<open>The largest value of the machine's \<^verbatim>\<open>int\<close>.\<close>

definition max_int :: "goarch \<Rightarrow> int" where
  "max_int g = 2 ^ (int_bits g - 1) - 1"

text \<open>
  The invariant that is carried through a history: an entry is \<open>- 1\<close> or a positive
  count that the machine's \<^verbatim>\<open>int\<close> holds.
\<close>

definition lock_inv :: "goarch \<Rightarrow> LockTable \<Rightarrow> bool" where
  "lock_inv g lt =
     (\<forall>b. case lt b of None \<Rightarrow> True | Some v \<Rightarrow> v = - 1 \<or> (0 < v \<and> v \<le> max_int g))"

text \<open>
  SLock increments the counter without a test for overflow. A call is in range when it
  is not an SLock on a block whose counter already is the largest \<^verbatim>\<open>int\<close>; a history
  is in range when each of its calls is, in the state it meets.
\<close>

fun call_in_range :: "goarch \<Rightarrow> LockTable \<Rightarrow> lock_call \<Rightarrow> bool" where
  "call_in_range g lt (CallSLock b) = (getLockVal lt b < max_int g)"
| "call_in_range g lt (CallXLock b) = True"
| "call_in_range g lt (CallUnlock b) = True"

fun counters_in_range :: "goarch \<Rightarrow> LockTable \<Rightarrow> lock_call list \<Rightarrow> bool" where
  "counters_in_range g lt [] = True"
| "counters_in_range g lt (c # cs) =
     (call_in_range g lt c
      \<and> (case lock_step g lt c of None \<Rightarrow> True | Some lt' \<Rightarrow> counters_in_range g lt' cs))"

section \<open>Pages (file/page.go)\<close>

text \<open>
  A page is a byte slice. Every accessor slices \<^verbatim>\<open>p.buffer[offset:]\<close> and hands the
  slice to \<^verbatim>\<open>encoding/binary\<close>, which panics when the slice is too short; a panic is the
  error \<open>Panic\<close> of the model. Integers are big-endian.
\<close>

type_synonym byte = "8 word"

type_synonym Page = "byte list"

datatype error =
    Panic
  | CannotOpen | CannotSeek | CannotStat | CannotReadData | PartialReadAtEOF | ShortRead
  | CannotWriteData | ShortWrite | CannotSync
  | NoMoreLogRecords | UnknownLogRecordType | InvalidUTF8
  | TxFailure

fun be_bytes :: "nat \<Rightarrow> int \<Rightarrow> byte list" where
  "be_bytes 0 n = []"
| "be_bytes (Suc k) n = be_bytes k (n div 256) @ [word_of_int n]"

definition be_value :: "byte list \<Rightarrow> int" where
  "be_value bs = foldl (\<lambda>acc b. acc * 256 + uint b) 0 bs"

definition NewPage :: "int \<Rightarrow> error + Page" where
  "NewPage blockSize = (if blockSize < 0 then Inl Panic else Inr (replicate (nat blockSize) 0))"

text \<open>\<^verbatim>\<open>copy(dst[start:], b)\<close> copies \<^verbatim>\<open>min(len(dst) - start, len(b))\<close> bytes.\<close>

definition copy_at :: "Page \<Rightarrow> nat \<Rightarrow> byte list \<Rightarrow> Page" where
  "copy_at buffer start b =
     take start buffer @ take (length buffer - start) b @ drop (start + length b) buffer"

definition GetInt :: "goarch \<Rightarrow> Page \<Rightarrow> int \<Rightarrow> error + int" where
  "GetInt g buffer offset =
     (if offset < 0 \<or> int (length buffer) < offset + int (IntSize g) then Inl Panic
      else Inr (go_int g (be_value (take (IntSize g) (drop (nat offset) buffer)))))"

definition SetInt :: "goarch \<Rightarrow> Page \<Rightarrow> int \<Rightarrow> int \<Rightarrow> error + Page" where
  "SetInt g buffer offset n =
     (if offset < 0 \<or> int (length buffer) < offset + int (IntSize g) then Inl Panic
      else Inr (copy_at buffer (nat offset) (be_bytes (IntSize g) n)))"

text \<open>
  GetBytes: \<^verbatim>\<open>make([]byte, length)\<close> panics on a negative length and
  \<^verbatim>\<open>p.buffer[start:end]\<close> on an end beyond the page. When \<^verbatim>\<open>start + length\<close> overflows
  the \<^verbatim>\<open>int\<close>, the wrapped end is negative and the slice expression panics as well, so
  the comparison of the exact sum with the length of the page decides the panic.
\<close>

definition GetBytes :: "goarch \<Rightarrow> Page \<Rightarrow> int \<Rightarrow> error + byte list" where
  "GetBytes g buffer offset =
     (case GetInt g buffer offset of
        Inl e \<Rightarrow> Inl e
      | Inr len \<Rightarrow>
          (let start = offset + int (IntSize g); end = start + len
           in if len < 0 \<or> int (length buffer) < end then Inl Panic
              else Inr (take (nat len) (drop (nat start) buffer))))"

definition SetBytes :: "goarch \<Rightarrow> Page \<Rightarrow> int \<Rightarrow> byte list \<Rightarrow> error + Page" where
  "SetBytes g buffer offset b =
     (case SetInt g buffer offset (int (length b)) of
        Inl e \<Rightarrow> Inl e
      | Inr buffer' \<Rightarrow> Inr (copy_at buffer' (nat (offset + int (IntSize g))) b))"

section \<open>The file manager (file/manager.go)\<close>

text \<open>
  The directory is a map from file names to contents. The operating system may fail any
  call; which calls fail is an input of the model (\<open>io_fault\<close>). A call that returns an
  error returns no state: the claims never look at the manager after a failed call.
  Read, Write and Append compute the offset \<^verbatim>\<open>int64(number) * int64(blockSize)\<close>, which
  wraps around in 64 bits; a negative offset makes Seek fail. The two counters are
  \<^verbatim>\<open>int\<close>s, and Length converts its \<^verbatim>\<open>int64\<close> quotient to \<^verbatim>\<open>int\<close>.
\<close>

datatype io_op =
    OpOpen string | OpSeek string int | OpRead string int | OpWrite string int
  | OpSync string | OpStat string

record FileManager =
  blockSize :: int
  openFiles :: "string set"
  blocksRead :: int
  blocksWritten :: int
  disk :: "string \<rightharpoonup> byte list"
  io_fault :: "io_op \<Rightarrow> bool"

definition file_data :: "FileManager \<Rightarrow> string \<Rightarrow> byte list" where
  "file_data fm name = (case disk fm name of None \<Rightarrow> [] | Some d \<Rightarrow> d)"

text \<open>
  NewManager on a directory with the files \<open>dir\<close>: files whose names begin with
  \<^verbatim>\<open>temp\<close> are removed, no file is open yet and the counters are 0.
\<close>

definition file_NewManager ::
  "(string \<rightharpoonup> byte list) \<Rightarrow> int \<Rightarrow> (io_op \<Rightarrow> bool) \<Rightarrow> FileManager" where
  "file_NewManager dir blockSize' faults =
     \<lparr>blockSize = blockSize', openFiles = {}, blocksRead = 0, blocksWritten = 0,
      disk = (\<lambda>name. if length name \<ge> 4 \<and> take 4 name = ''temp'' then None else dir name),
      io_fault = faults\<rparr>"

text \<open>\<^verbatim>\<open>os.OpenFile(..., O_RDWR|O_CREATE|O_SYNC, ...)\<close> creates a missing file, empty.\<close>

definition getFile :: "FileManager \<Rightarrow> string \<Rightarrow> error + FileManager" where
  "getFile fm name =
     (if name \<in> openFiles fm then Inr fm
      else if io_fault fm (OpOpen name) then Inl CannotOpen
      else Inr (fm\<lparr>openFiles := insert name (openFiles fm),
                   disk := (disk fm)(name \<mapsto> file_data fm name)\<rparr>))"

text \<open>
  \<^verbatim>\<open>io.ReadFull(f, buf)\<close> at a file offset: the bytes read and the error. It returns
  \<^verbatim>\<open>io.EOF\<close> only when no byte was read, and \<^verbatim>\<open>io.ErrUnexpectedEOF\<close> when some but
  not all were.
\<close>

datatype read_error = ReadNil | ReadEOF | ReadUnexpectedEOF | ReadFault

definition ReadFull :: "FileManager \<Rightarrow> string \<Rightarrow> int \<Rightarrow> Page \<Rightarrow> nat \<times> read_error \<times> Page" where
  "ReadFull fm name offset buf =
     (let avail = drop (nat offset) (file_data fm name);
          n = min (length buf) (length avail)
      in if length buf = 0 then (0, ReadNil, buf)
         else if io_fault fm (OpRead name offset) then (0, ReadFault, buf)
         else if n = length buf then (n, ReadNil, take n avail)
         else if n = 0 then (0, ReadEOF, buf)
         else (n, ReadUnexpectedEOF, take n avail @ drop n buf))"

definition file_Read ::
  "goarch \<Rightarrow> FileManager \<Rightarrow> BlockId \<Rightarrow> Page \<Rightarrow> error + (FileManager \<times> Page)" where
  "file_Read g m block page =
     (case getFile m (File block) of
        Inl e \<Rightarrow> Inl e
      | Inr m1 \<Rightarrow>
          (let offset = go_int64 (BlockNumber block * blockSize m1)
           in if offset < 0 \<or> io_fault m1 (OpSeek (File block) offset) then Inl CannotSeek
              else (case ReadFull m1 (File block) offset page of
                      (n, err, buf) \<Rightarrow>
                        if err = ReadNil \<and> n = length page
                        then Inr (m1\<lparr>blocksRead := go_int g (blocksRead m1 + 1)\<rparr>, buf)
                        else if err = ReadEOF
                        then (if n = 0 then Inr (m1\<lparr>blocksRead := go_int g (blocksRead m1 + 1)\<rparr>, buf)
                              else Inl PartialReadAtEOF)
                        else if err \<noteq> ReadNil then Inl CannotReadData
                        else Inl ShortRead)))"

text \<open>A write beyond the end of the file fills the gap with zero bytes.\<close>

definition write_at :: "byte list \<Rightarrow> nat \<Rightarrow> byte list \<Rightarrow> byte list" where
  "write_at d off buf =
     take off d @ replicate (off - length d) 0 @ buf @ drop (off + length buf) d"

definition file_Write ::
  "goarch \<Rightarrow> FileManager \<Rightarrow> BlockId \<Rightarrow> Page \<Rightarrow> error + FileManager" where
  "file_Write g m block page =
     (case getFile m (File block) of
        Inl e \<Rightarrow> Inl e
      | Inr m1 \<Rightarrow>
          (let offset = go_int64 (BlockNumber block * blockSize m1)
           in if offset < 0 \<or> io_fault m1 (OpSeek (File block) offset) then Inl CannotSeek
              else if io_fault m1 (OpWrite (File block) offset) then Inl ShortWrite
              else if io_fault m1 (OpSync (File block)) then Inl CannotSync
              else Inr (m1\<lparr>disk := (disk m1)(File block \<mapsto>
                                write_at (file_data m1 (File block)) (nat offset) page),
                            blocksWritten := go_int g (blocksWritten m1 + 1)\<rparr>)))"

text \<open>Go's integer division truncates towards zero and panics on a zero divisor.\<close>

definition go_div :: "int \<Rightarrow> int \<Rightarrow> error + int" where
  "go_div a b = (if b = 0 then Inl Panic else Inr (sgn a * sgn b * (\<bar>a\<bar> div \<bar>b\<bar>)))"

definition file_Length ::
  "goarch \<Rightarrow> FileManager \<Rightarrow> string \<Rightarrow> error + (FileManager \<times> int)" where
  "file_Length g m filename =
     (case getFile m filename of
        Inl e \<Rightarrow> Inl e
      | Inr m1 \<Rightarrow>
          if io_fault m1 (OpStat filename) then Inl CannotStat
          else (case go_div (int (length (file_data m1 filename))) (blockSize m1) of
                  Inl e \<Rightarrow> Inl e
                | Inr n \<Rightarrow> Inr (m1, go_int g n)))"

definition file_Append ::
  "goarch \<Rightarrow> FileManager \<Rightarrow> string \<Rightarrow> error + (FileManager \<times> BlockId)" where
  "file_Append g m filename =
     (case file_Length g m filename of
        Inl e \<Rightarrow> Inl e
      | Inr (m1, newBlockNumber) \<Rightarrow>
          (let block = \<lparr>File = filename, BlockNumber = newBlockNumber\<rparr>;
               offset = go_int64 (newBlockNumber * blockSize m1)
           in if offset < 0 \<or> io_fault m1 (OpSeek filename offset) then Inl CannotSeek
              else if blockSize m1 < 0 then Inl Panic
              else if io_fault m1 (OpWrite filename offset) then Inl CannotWriteData
              else if io_fault m1 (OpSync filename) then Inl CannotSync
              else Inr (m1\<lparr>disk := (disk m1)(filename \<mapsto>
                                write_at (file_data m1 filename) (nat offset)
                                  (replicate (nat (blockSize m1)) 0)),
                            blocksWritten := go_int g (blocksWritten m1 + 1)\<rparr>, block)))"

section \<open>The log manager (log/manager.go) and its iterator (log/iterator.go)\<close>

record LogManager =
  fileManager :: FileManager
  logFile :: string
  logPage :: Page
  currentBlock :: BlockId
  latestLSN :: int
  lastSavedLSN :: int

definition appendNewBlock ::
  "goarch \<Rightarrow> FileManager \<Rightarrow> string \<Rightarrow> Page \<Rightarrow> error + (FileManager \<times> Page \<times> BlockId)" where
  "appendNewBlock g fm lf page =
     (case file_Append g fm lf of
        Inl e \<Rightarrow> Inl e
      | Inr (fm1, block) \<Rightarrow>
          (case SetInt g page 0 (blockSize fm1) of
             Inl e \<Rightarrow> Inl e
           | Inr page1 \<Rightarrow>
               (case file_Write g fm1 block page1 of
                  Inl e \<Rightarrow> Inl e
                | Inr fm2 \<Rightarrow> Inr (fm2, page1, block))))"

definition log_NewManager :: "goarch \<Rightarrow> FileManager \<Rightarrow> string \<Rightarrow> error + LogManager" where
  "log_NewManager g fm lf =
     (case NewPage (blockSize fm) of
        Inl e \<Rightarrow> Inl e
      | Inr page \<Rightarrow>
          (case file_Length g fm lf of
             Inl e \<Rightarrow> Inl e
           | Inr (fm1, logSize) \<Rightarrow>
               if logSize = 0
               then (case appendNewBlock g fm1 lf page of
                       Inl e \<Rightarrow> Inl e
                     | Inr (fm2, page2, block) \<Rightarrow>
                         Inr \<lparr>fileManager = fm2, logFile = lf, logPage = page2,
                              currentBlock = block, latestLSN = 0, lastSavedLSN = 0\<rparr>)
               else (let block = \<lparr>File = lf, BlockNumber = go_int g (logSize - 1)\<rparr>
                     in case file_Read g fm1 block page of
                          Inl e \<Rightarrow> Inl e
                        | Inr (fm2, page2) \<Rightarrow>
                            Inr \<lparr>fileManager = fm2, logFile = lf, logPage = page2,
                                 currentBlock = block, latestLSN = 0, lastSavedLSN = 0\<rparr>)))"

definition log_flush :: "goarch \<Rightarrow> LogManager \<Rightarrow> error + LogManager" where
  "log_flush g m =
     (case file_Write g (fileManager m) (currentBlock m) (logPage m) of
        Inl e \<Rightarrow> Inl e
      | Inr fm1 \<Rightarrow> Inr (m\<lparr>fileManager := fm1, lastSavedLSN := latestLSN m\<rparr>))"

definition log_Flush :: "goarch \<Rightarrow> LogManager \<Rightarrow> int \<Rightarrow> error + LogManager" where
  "log_Flush g m lsn = (if lsn \<ge> lastSavedLSN m then log_flush g m else Inr m)"

text \<open>
  Append: the literal 4 is in the source (``4 bytes for the integer storing the record
  size''), while SetBytes writes a length of \<open>IntSize\<close> bytes. \<open>place_record\<close> is
  the end of Append, from \<^verbatim>\<open>recordPosition := boundary - bytesNeeded\<close> on; the two
  branches of Append reach it with the boundary of the old or of the new block.
\<close>

definition place_record ::
  "goarch \<Rightarrow> LogManager \<Rightarrow> int \<Rightarrow> byte list \<Rightarrow> error + (LogManager \<times> int)" where
  "place_record g m boundary' logRecord =
     (let recordSize = int (length logRecord);
          bytesNeeded = go_int g (recordSize + 4);
          recordPosition = go_int g (boundary' - bytesNeeded)
      in case SetBytes g (logPage m) recordPosition logRecord of
           Inl e \<Rightarrow> Inl e
         | Inr page3 \<Rightarrow>
             (case SetInt g page3 0 recordPosition of
                Inl e \<Rightarrow> Inl e
              | Inr page4 \<Rightarrow>
                  (let lsn' = go_int g (latestLSN m + 1)
                   in Inr (m\<lparr>logPage := page4, latestLSN := lsn'\<rparr>, lsn'))))"

definition log_Append :: "goarch \<Rightarrow> LogManager \<Rightarrow> byte list \<Rightarrow> error + (LogManager \<times> int)" where
  "log_Append g m logRecord =
     (case GetInt g (logPage m) 0 of
        Inl e \<Rightarrow> Inl e
      | Inr boundary' \<Rightarrow>
          (let recordSize = int (length logRecord);
               bytesNeeded = go_int g (recordSize + 4)
           in if go_int g (boundary' - bytesNeeded) < 4
              then (case log_flush g m of
                      Inl e \<Rightarrow> Inl e
                    | Inr m1 \<Rightarrow>
                        (case appendNewBlock g (fileManager m1) (logFile m1) (logPage m1) of
                           Inl e \<Rightarrow> Inl e
                         | Inr (fm2, page2, block) \<Rightarrow>
                             (case GetInt g page2 0 of
                                Inl e \<Rightarrow> Inl e
                              | Inr boundary2 \<Rightarrow>
                                  place_record g
                                    (m1\<lparr>fileManager := fm2, logPage := page2,
                                        currentBlock := block\<rparr>)
                                    boundary2 logRecord)))
              else place_record g m boundary' logRecord))"

record Iterator =
  it_block :: BlockId
  it_page :: Page
  currentPosition :: int
  boundary :: int

definition moveToBlock ::
  "goarch \<Rightarrow> FileManager \<Rightarrow> Iterator \<Rightarrow> BlockId \<Rightarrow> error + (FileManager \<times> Iterator)" where
  "moveToBlock g fm it block =
     (case file_Read g fm block (it_page it) of
        Inl e \<Rightarrow> Inl e
      | Inr (fm1, page1) \<Rightarrow>
          (case GetInt g page1 0 of
             Inl e \<Rightarrow> Inl e
           | Inr b \<Rightarrow> Inr (fm1, it\<lparr>it_page := page1, boundary := b, currentPosition := b\<rparr>)))"

definition NewIterator :: "goarch \<Rightarrow> FileManager \<Rightarrow> BlockId \<Rightarrow> error + (FileManager \<times> Iterator)" where
  "NewIterator g fm block =
     (case NewPage (blockSize fm) of
        Inl e \<Rightarrow> Inl e
      | Inr page \<Rightarrow>
          moveToBlock g fm \<lparr>it_block = block, it_page = page, currentPosition = 0, boundary = 0\<rparr>
            block)"

definition HasNext :: "FileManager \<Rightarrow> Iterator \<Rightarrow> bool" where
  "HasNext fm it = (currentPosition it < blockSize fm \<or> BlockNumber (it_block it) > 0)"

text \<open>
  Next: again the literal 4 of the source, next to GetBytes, which skips \<open>IntSize\<close>.
  Where GetBytes has returned, the record ends inside the page, so that the new position
  is at most the length of the page and the addition does not wrap around.
\<close>

definition Next ::
  "goarch \<Rightarrow> FileManager \<Rightarrow> Iterator \<Rightarrow> error + (FileManager \<times> Iterator \<times> byte list)" where
  "Next g fm it =
     (case (if currentPosition it = blockSize fm
            then (if BlockNumber (it_block it) = 0 then Inl NoMoreLogRecords
                  else (let block = \<lparr>File = File (it_block it),
                                      BlockNumber = go_int g (BlockNumber (it_block it) - 1)\<rparr>
                        in moveToBlock g fm (it\<lparr>it_block := block\<rparr>) block))
            else Inr (fm, it)) of
        Inl e \<Rightarrow> Inl e
      | Inr (fm1, it1) \<Rightarrow>
          (case GetBytes g (it_page it1) (currentPosition it1) of
             Inl e \<Rightarrow> Inl e
           | Inr record \<Rightarrow>
               Inr (fm1, it1\<lparr>currentPosition := currentPosition it1 + (4 + int (length record))\<rparr>,
                    record)))"

definition log_Iterator :: "goarch \<Rightarrow> LogManager \<Rightarrow> error + (LogManager \<times> Iterator)" where
  "log_Iterator g m =
     (case log_flush g m of
        Inl e \<Rightarrow> Inl e
      | Inr m1 \<Rightarrow>
          (case NewIterator g (fileManager m1) (currentBlock m1) of
             Inl e \<Rightarrow> Inl e
           | Inr (fm2, it) \<Rightarrow> Inr (m1\<lparr>fileManager := fm2\<rparr>, it)))"

text \<open>
  A client of the log manager: appends and flushes, in any order, and the records it
  appended.
\<close>

datatype log_op = DoAppend "byte list" | DoFlush int

fun log_run :: "goarch \<Rightarrow> LogManager \<Rightarrow> log_op list \<Rightarrow> error + LogManager" where
  "log_run g m [] = Inr m"
| "log_run g m (DoAppend r # ops) =
     (case log_Append g m r of Inl e \<Rightarrow> Inl e | Inr (m1, l) \<Rightarrow> log_run g m1 ops)"
| "log_run g m (DoFlush l # ops) =
     (case log_Flush g m l of Inl e \<Rightarrow> Inl e | Inr m1 \<Rightarrow> log_run g m1 ops)"

fun appended :: "log_op list \<Rightarrow> byte list list" where
  "appended [] = []"
| "appended (DoAppend r # ops) = r # appended ops"
| "appended (DoFlush l # ops) = appended ops"

text \<open>
  Reading an iterator to its end: \<^verbatim>\<open>for it.HasNext() { rec, err := it.Next(); ... }\<close>,
  as the tests and the recovery manager do. Every Next that returns a record moves the
  iterator to an earlier block or further up its page, which is why the loop ends.
\<close>

definition it_measure :: "Iterator \<Rightarrow> nat \<times> nat" where
  "it_measure it = (nat (BlockNumber (it_block it)), length (it_page it) - nat (currentPosition it))"

function Iterator_all :: "goarch \<Rightarrow> FileManager \<Rightarrow> Iterator \<Rightarrow> error + byte list list" where
  "Iterator_all g fm it =
     (if \<not> HasNext fm it then Inr []
      else (case Next g fm it of
              Inl e \<Rightarrow> Inl e
            | Inr (fm1, it1, r) \<Rightarrow>
                (case Iterator_all g fm1 it1 of
                   Inl e \<Rightarrow> Inl e
                 | Inr rs \<Rightarrow> Inr (r # rs))))"
  by pat_completeness auto
termination
proof -
  have dec: "(it_measure it1, it_measure it) \<in> less_than <*lex*> less_than"
    if "HasNext fm it" and "Next g fm it = Inr (fm1, it1, bytes)"
    for g fm it fm1 it1 bytes
  proof (cases "currentPosition it = blockSize fm")
    case True
    with that(1) have pos: "BlockNumber (it_block it) > 0" by (simp add: HasNext_def)
    from that(2) True pos
    have "BlockNumber (it_block it1) = go_int g (BlockNumber (it_block it) - 1)"
      by (auto simp: Next_def moveToBlock_def Let_def split: sum.splits if_splits prod.splits)
    moreover have "go_int g (BlockNumber (it_block it) - 1) \<le> BlockNumber (it_block it) - 1"
      unfolding go_int_def signed_take_bit_int_less_eq_self_iff
      using pos by (smt (verit) zero_less_power)
    ultimately show ?thesis using pos by (simp add: it_measure_def)
  next
    case False
    from that(2) False obtain rcd where
      gb: "GetBytes g (it_page it) (currentPosition it) = Inr rcd"
      and it1: "it1 = it\<lparr>currentPosition := currentPosition it + (4 + int (length rcd))\<rparr>"
      by (auto simp: Next_def split: sum.splits)
    from gb have "0 \<le> currentPosition it" "currentPosition it < int (length (it_page it))"
      by (auto simp: GetBytes_def GetInt_def IntSize_def split: sum.splits if_splits)
    then show ?thesis unfolding it1 it_measure_def by auto
  qed
  show ?thesis
  proof (relation "inv_image (less_than <*lex*> less_than) (\<lambda>(g, fm, it). it_measure it)")
    show "wf (inv_image (less_than <*lex*> less_than) (\<lambda>(g, fm, it). it_measure it))"
      by (intro wf_inv_image wf_lex_prod wf_less_than)
  qed (auto dest: dec simp del: less_than_iff)
qed

declare Iterator_all.simps [simp del]

text \<open>
  The layout of a log block, as the specification describes it: a record is stored as
  its length in 4 bytes and its bytes; the records of a block lie from the boundary to
  the end of the page, the newest first; the boundary is stored at offset 0.
\<close>

definition enc :: "byte list \<Rightarrow> byte list" where
  "enc r = be_bytes 4 (int (length r)) @ r"

definition block_image :: "byte list list \<Rightarrow> byte list" where
  "block_image rs = concat (map enc (rev rs))"

definition page_holds :: "goarch \<Rightarrow> int \<Rightarrow> Page \<Rightarrow> byte list list \<Rightarrow> bool" where
  "page_holds g bs page rs =
     (int (length page) = bs
      \<and> 4 + int (length (block_image rs)) \<le> bs
      \<and> GetInt g page 0 = Inr (bs - int (length (block_image rs)))
      \<and> drop (nat bs - length (block_image rs)) page = block_image rs)"

text \<open>
  The layout of the whole log: \<open>rss\<close> lists the records of every block, oldest block
  first and oldest record first. The blocks before the current one are on disk, the
  current one is in the log page (what the disk holds for it does not matter before a
  flush), and once there is more than one block no block is empty.
\<close>

definition disk_page :: "int \<Rightarrow> byte list \<Rightarrow> nat \<Rightarrow> Page" where
  "disk_page bs d i = take (nat bs) (drop (i * nat bs) d)"

definition log_layout :: "goarch \<Rightarrow> int \<Rightarrow> LogManager \<Rightarrow> byte list list list \<Rightarrow> bool" where
  "log_layout g bs m rss =
     (rss \<noteq> [] \<and> blockSize (fileManager m) = bs \<and> (\<forall>op. \<not> io_fault (fileManager m) op)
      \<and> currentBlock m = \<lparr>File = logFile m, BlockNumber = int (length rss) - 1\<rparr>
      \<and> length (file_data (fileManager m) (logFile m)) = length rss * nat bs
      \<and> (\<forall>i. Suc i < length rss \<longrightarrow>
            page_holds g bs (disk_page bs (file_data (fileManager m) (logFile m)) i) (rss ! i))
      \<and> page_holds g bs (logPage m) (last rss)
      \<and> (1 < length rss \<longrightarrow> [] \<notin> set rss)
      \<and> bs < 2 ^ 31 \<and> int (length rss) < 2 ^ 31)"

section \<open>Buffers, the pool and a transaction's buffer list\<close>

text \<open>buffer/buffer.go. A new buffer has \<open>txnNum = - 1\<close> and \<open>lsn = - 1\<close>.\<close>

record Buffer =
  contents :: Page
  buf_block :: "BlockId option"
  pins :: int
  txnNum :: int
  lsn :: int

definition SetModified :: "Buffer \<Rightarrow> int \<Rightarrow> int \<Rightarrow> Buffer" where
  "SetModified b txnNum' lsn' =
     (let b1 = b\<lparr>txnNum := txnNum'\<rparr>
      in if lsn' \<ge> 0 then b1\<lparr>lsn := lsn'\<rparr> else b1)"

definition isPinned :: "Buffer \<Rightarrow> bool" where
  "isPinned b = (pins b > 0)"

text \<open>
  Transaction.SetInt (tx/transaction.go) from the point where it holds the exclusive
  lock and has found the buffer: \<open>logged\<close> is the LSN that
  \<^verbatim>\<open>recoveryManager.SetInt\<close> returned when \<^verbatim>\<open>logIt\<close> is set, and \<open>None\<close> when
  \<^verbatim>\<open>logIt\<close> is false, where \<^verbatim>\<open>lsn\<close> keeps its initial value \<open>- 1\<close>.
\<close>

definition Transaction_SetInt_buffer ::
  "goarch \<Rightarrow> int \<Rightarrow> Buffer \<Rightarrow> int \<Rightarrow> int \<Rightarrow> int option \<Rightarrow> error + Buffer" where
  "Transaction_SetInt_buffer g txNum' buff offset val logged =
     (let lsn' = (case logged of None \<Rightarrow> - 1 | Some l \<Rightarrow> l)
      in case SetInt g (contents buff) offset val of
           Inl e \<Rightarrow> Inl e
         | Inr page \<Rightarrow> Inr (SetModified (buff\<lparr>contents := page\<rparr>) txNum' lsn'))"

text \<open>A run of SetModified calls on one frame, and the frame after each of them.\<close>

fun SetModified_history :: "Buffer \<Rightarrow> (int \<times> int) list \<Rightarrow> Buffer list" where
  "SetModified_history b [] = []"
| "SetModified_history b ((t, l) # cs) =
     SetModified b t l # SetModified_history (SetModified b t l) cs"

text \<open>
  buffer/manager.go. A \<^verbatim>\<open>*Buffer\<close> is the index of the frame in \<^verbatim>\<open>bufferPool\<close>. The
  replacement strategy is the default one (NaiveStrategy), whose \<^verbatim>\<open>unpinBuffer\<close> does
  nothing.
\<close>

record BufferManager =
  bufferPool :: "Buffer list"
  numAvailable :: int

definition bm_Unpin :: "BufferManager \<Rightarrow> nat \<Rightarrow> BufferManager" where
  "bm_Unpin m i =
     (let b = (bufferPool m ! i)\<lparr>pins := pins (bufferPool m ! i) - 1\<rparr>;
          m1 = m\<lparr>bufferPool := (bufferPool m)[i := b]\<rparr>
      in if \<not> isPinned b then m1\<lparr>numAvailable := numAvailable m1 + 1\<rparr> else m1)"

text \<open>tx/buffer_list.go.\<close>

record pinnedBuffer =
  pb_buffer :: nat
  refCount :: int

record BufferList =
  buffers :: "BlockId \<rightharpoonup> pinnedBuffer"
  bufferManager :: BufferManager

definition BufferList_Unpin :: "BufferList \<Rightarrow> BlockId \<Rightarrow> BufferList" where
  "BufferList_Unpin bl block =
     (case buffers bl block of
        None \<Rightarrow> bl
      | Some pinnedBuf \<Rightarrow>
          (let pb = pinnedBuf\<lparr>refCount := refCount pinnedBuf - 1\<rparr>
           in if refCount pb \<le> 0
              then bl\<lparr>bufferManager := bm_Unpin (bufferManager bl) (pb_buffer pb),
                      buffers := (buffers bl)(block := None)\<rparr>
              else bl\<lparr>buffers := (buffers bl)(block \<mapsto> pb)\<rparr>))"

record Transaction =
  txNum :: int
  myBuffers :: BufferList

definition Transaction_Unpin :: "Transaction \<Rightarrow> BlockId \<Rightarrow> Transaction" where
  "Transaction_Unpin tx block = tx\<lparr>myBuffers := BufferList_Unpin (myBuffers tx) block\<rparr>"

section \<open>Strings and the other typed accessors of a page\<close>

text \<open>
  A Go string is a sequence of bytes. \<open>utf8_Valid\<close> is \<^verbatim>\<open>unicode/utf8.Valid\<close> of Go's
  standard library: the well-formed byte sequences of UTF-8.
\<close>

definition byte_char :: "byte \<Rightarrow> char" where
  "byte_char w = Char (bit w 0) (bit w 1) (bit w 2) (bit w 3) (bit w 4) (bit w 5) (bit w 6) (bit w 7)"

definition string_bytes :: "string \<Rightarrow> byte list" where
  "string_bytes s = map of_char s"

definition bytes_string :: "byte list \<Rightarrow> string" where
  "bytes_string bs = map byte_char bs"

definition in_range :: "byte \<Rightarrow> nat \<Rightarrow> nat \<Rightarrow> bool" where
  "in_range b lo hi = (lo \<le> unat b \<and> unat b \<le> hi)"

fun utf8_Valid :: "byte list \<Rightarrow> bool" where
  "utf8_Valid [] = True"
| "utf8_Valid (b0 # bs) =
     (if unat b0 < 128 then utf8_Valid bs
      else if in_range b0 194 223 then
        (case bs of
           b1 # r \<Rightarrow> in_range b1 128 191 \<and> utf8_Valid r
         | _ \<Rightarrow> False)
      else if in_range b0 224 239 then
        (case bs of
           b1 # b2 # r \<Rightarrow>
             in_range b1 (if unat b0 = 224 then 160 else 128) (if unat b0 = 237 then 159 else 191)
             \<and> in_range b2 128 191 \<and> utf8_Valid r
         | _ \<Rightarrow> False)
      else if in_range b0 240 244 then
        (case bs of
           b1 # b2 # b3 # r \<Rightarrow>
             in_range b1 (if unat b0 = 240 then 144 else 128) (if unat b0 = 244 then 143 else 191)
             \<and> in_range b2 128 191 \<and> in_range b3 128 191 \<and> utf8_Valid r
         | _ \<Rightarrow> False)
      else False)"

definition GetString :: "goarch \<Rightarrow> Page \<Rightarrow> int \<Rightarrow> error + string" where
  "GetString g buffer offset =
     (case GetBytes g buffer offset of
        Inl e \<Rightarrow> Inl e
      | Inr b \<Rightarrow> if \<not> utf8_Valid b then Inl InvalidUTF8 else Inr (bytes_string b))"

definition SetString :: "goarch \<Rightarrow> Page \<Rightarrow> int \<Rightarrow> string \<Rightarrow> error + Page" where
  "SetString g buffer offset s =
     (if \<not> utf8_Valid (string_bytes s) then Inl InvalidUTF8
      else SetBytes g buffer offset (string_bytes s))"

definition MaxLength :: "goarch \<Rightarrow> int \<Rightarrow> int" where
  "MaxLength g strlen = go_int g (int (IntSize g) + strlen * 4)"

definition GetLong :: "Page \<Rightarrow> int \<Rightarrow> error + int" where
  "GetLong buffer offset =
     (if offset < 0 \<or> int (length buffer) < offset + 8 then Inl Panic
      else Inr (signed_take_bit 63 (be_value (take 8 (drop (nat offset) buffer)))))"

definition GetShort :: "Page \<Rightarrow> int \<Rightarrow> error + int" where
  "GetShort buffer offset =
     (if offset < 0 \<or> int (length buffer) < offset + 2 then Inl Panic
      else Inr (signed_take_bit 15 (be_value (take 2 (drop (nat offset) buffer)))))"

definition GetBool :: "Page \<Rightarrow> int \<Rightarrow> error + bool" where
  "GetBool buffer offset =
     (if offset < 0 \<or> int (length buffer) \<le> offset then Inl Panic
      else Inr (buffer ! nat offset \<noteq> 0))"

text \<open>GetDate reads the 64-bit Unix time; the model keeps the seconds.\<close>

definition GetDate :: "Page \<Rightarrow> int \<Rightarrow> error + int" where
  "GetDate buffer offset = GetLong buffer offset"

section \<open>Log records (tx/log_record.go and one file per record type)\<close>

datatype LogRecordType =
    Checkpoint | Start | Commit | Rollback
  | SetIntType | SetStringType | SetBoolType | SetLongType | SetShortType | SetDateType

definition type_code :: "LogRecordType \<Rightarrow> int" where
  "type_code t =
     (case t of Checkpoint \<Rightarrow> 0 | Start \<Rightarrow> 1 | Commit \<Rightarrow> 2 | Rollback \<Rightarrow> 3
      | SetIntType \<Rightarrow> 4 | SetStringType \<Rightarrow> 5 | SetBoolType \<Rightarrow> 6 | SetLongType \<Rightarrow> 7
      | SetShortType \<Rightarrow> 8 | SetDateType \<Rightarrow> 9)"

definition FromCode :: "int \<Rightarrow> error + LogRecordType" where
  "FromCode code =
     (if code = 0 then Inr Checkpoint
      else if code = 1 then Inr Start
      else if code = 2 then Inr Commit
      else if code = 3 then Inr Rollback
      else if code = 4 then Inr SetIntType
      else if code = 5 then Inr SetStringType
      else if code = 6 then Inr SetBoolType
      else if code = 7 then Inr SetLongType
      else if code = 8 then Inr SetShortType
      else if code = 9 then Inr SetDateType
      else Inl UnknownLogRecordType)"

text \<open>
  The record structs. An update record holds the transaction number, the offset, the
  saved value and the block, in the order of the struct's fields.
\<close>

datatype LogRecord =
    CheckpointRecord
  | StartRecord int
  | CommitRecord int
  | RollbackRecord int
  | SetIntRecord int int int BlockId
  | SetStringRecord int int string BlockId
  | SetBoolRecord int int bool BlockId
  | SetLongRecord int int int BlockId
  | SetShortRecord int int int BlockId
  | SetDateRecord int int int BlockId

fun Op :: "LogRecord \<Rightarrow> LogRecordType" where
  "Op CheckpointRecord = Checkpoint"
| "Op (StartRecord t) = Start"
| "Op (CommitRecord t) = Commit"
| "Op (RollbackRecord t) = Rollback"
| "Op (SetIntRecord t off v blk) = SetIntType"
| "Op (SetStringRecord t off v blk) = SetStringType"
| "Op (SetBoolRecord t off v blk) = SetBoolType"
| "Op (SetLongRecord t off v blk) = SetLongType"
| "Op (SetShortRecord t off v blk) = SetShortType"
| "Op (SetDateRecord t off v blk) = SetDateType"

fun TxNumber :: "LogRecord \<Rightarrow> int" where
  "TxNumber CheckpointRecord = - 1"
| "TxNumber (StartRecord t) = t"
| "TxNumber (CommitRecord t) = t"
| "TxNumber (RollbackRecord t) = t"
| "TxNumber (SetIntRecord t off v blk) = t"
| "TxNumber (SetStringRecord t off v blk) = t"
| "TxNumber (SetBoolRecord t off v blk) = t"
| "TxNumber (SetLongRecord t off v blk) = t"
| "TxNumber (SetShortRecord t off v blk) = t"
| "TxNumber (SetDateRecord t off v blk) = t"

definition NewStartRecord :: "goarch \<Rightarrow> Page \<Rightarrow> error + LogRecord" where
  "NewStartRecord g page =
     (let operationPos = 0; txNumPos = operationPos + int (IntSize g)
      in case GetInt g page txNumPos of Inl e \<Rightarrow> Inl e | Inr t \<Rightarrow> Inr (StartRecord t))"

definition NewCommitRecord :: "goarch \<Rightarrow> Page \<Rightarrow> error + LogRecord" where
  "NewCommitRecord g page =
     (let operationPos = 0; txNumPos = operationPos + int (IntSize g)
      in case GetInt g page txNumPos of Inl e \<Rightarrow> Inl e | Inr t \<Rightarrow> Inr (CommitRecord t))"

text \<open>NewRollbackRecord: the source multiplies, \<^verbatim>\<open>operationPos * utils.IntSize\<close>.\<close>

definition NewRollbackRecord :: "goarch \<Rightarrow> Page \<Rightarrow> error + LogRecord" where
  "NewRollbackRecord g page =
     (let operationPos = 0; txNumPos = operationPos * int (IntSize g)
      in case GetInt g page txNumPos of Inl e \<Rightarrow> Inl e | Inr t \<Rightarrow> Inr (RollbackRecord t))"

text \<open>
  The six update records are decoded by the same prologue: transaction number, file
  name, block number and offset, and the position of the value.
\<close>

definition update_header :: "goarch \<Rightarrow> Page \<Rightarrow> error + (int \<times> int \<times> BlockId \<times> int)" where
  "update_header g page =
     (let operationPos = 0; txNumPos = operationPos + int (IntSize g)
      in case GetInt g page txNumPos of
           Inl e \<Rightarrow> Inl e
         | Inr t \<Rightarrow>
             (let fileNamePos = txNumPos + int (IntSize g)
              in case GetString g page fileNamePos of
                   Inl e \<Rightarrow> Inl e
                 | Inr fileName \<Rightarrow>
                     (let blockNumPos = go_int g (fileNamePos + MaxLength g (int (length fileName)))
                      in case GetInt g page blockNumPos of
                           Inl e \<Rightarrow> Inl e
                         | Inr blockNum \<Rightarrow>
                             (let block = \<lparr>File = fileName, BlockNumber = blockNum\<rparr>;
                                  offsetPos = go_int g (blockNumPos + int (IntSize g))
                              in case GetInt g page offsetPos of
                                   Inl e \<Rightarrow> Inl e
                                 | Inr offset \<Rightarrow>
                                     Inr (t, offset, block,
                                          go_int g (offsetPos + int (IntSize g)))))))"

definition NewSetIntRecord :: "goarch \<Rightarrow> Page \<Rightarrow> error + LogRecord" where
  "NewSetIntRecord g page =
     (case update_header g page of
        Inl e \<Rightarrow> Inl e
      | Inr (t, offset, block, valuePos) \<Rightarrow>
          (case GetInt g page valuePos of
             Inl e \<Rightarrow> Inl e
           | Inr v \<Rightarrow> Inr (SetIntRecord t offset v block)))"

definition NewSetStringRecord :: "goarch \<Rightarrow> Page \<Rightarrow> error + LogRecord" where
  "NewSetStringRecord g page =
     (case update_header g page of
        Inl e \<Rightarrow> Inl e
      | Inr (t, offset, block, valuePos) \<Rightarrow>
          (case GetString g page valuePos of
             Inl e \<Rightarrow> Inl e
           | Inr v \<Rightarrow> Inr (SetStringRecord t offset v block)))"

definition NewSetBoolRecord :: "goarch \<Rightarrow> Page \<Rightarrow> error + LogRecord" where
  "NewSetBoolRecord g page =
     (case update_header g page of
        Inl e \<Rightarrow> Inl e
      | Inr (t, offset, block, valuePos) \<Rightarrow>
          (case GetBool page valuePos of
             Inl e \<Rightarrow> Inl e
           | Inr v \<Rightarrow> Inr (SetBoolRecord t offset v block)))"

definition NewSetLongRecord :: "goarch \<Rightarrow> Page \<Rightarrow> error + LogRecord" where
  "NewSetLongRecord g page =
     (case update_header g page of
        Inl e \<Rightarrow> Inl e
      | Inr (t, offset, block, valuePos) \<Rightarrow>
          (case GetLong page valuePos of
             Inl e \<Rightarrow> Inl e
           | Inr v \<Rightarrow> Inr (SetLongRecord t offset v block)))"

definition NewSetShortRecord :: "goarch \<Rightarrow> Page \<Rightarrow> error + LogRecord" where
  "NewSetShortRecord g page =
     (case update_header g page of
        Inl e \<Rightarrow> Inl e
      | Inr (t, offset, block, valuePos) \<Rightarrow>
          (case GetShort page valuePos of
             Inl e \<Rightarrow> Inl e
           | Inr v \<Rightarrow> Inr (SetShortRecord t offset v block)))"

definition NewSetDateRecord :: "goarch \<Rightarrow> Page \<Rightarrow> error + LogRecord" where
  "NewSetDateRecord g page =
     (case update_header g page of
        Inl e \<Rightarrow> Inl e
      | Inr (t, offset, block, valuePos) \<Rightarrow>
          (case GetDate page valuePos of
             Inl e \<Rightarrow> Inl e
           | Inr v \<Rightarrow> Inr (SetDateRecord t offset v block)))"

definition CreateLogRecord :: "goarch \<Rightarrow> byte list \<Rightarrow> error + LogRecord" where
  "CreateLogRecord g bytes =
     (case GetInt g bytes 0 of
        Inl e \<Rightarrow> Inl e
      | Inr code \<Rightarrow>
          (case FromCode code of
             Inl e \<Rightarrow> Inl e
           | Inr recordType \<Rightarrow>
               (case recordType of
                  Checkpoint \<Rightarrow> Inr CheckpointRecord
                | Start \<Rightarrow> NewStartRecord g bytes
                | Commit \<Rightarrow> NewCommitRecord g bytes
                | Rollback \<Rightarrow> NewRollbackRecord g bytes
                | SetIntType \<Rightarrow> NewSetIntRecord g bytes
                | SetStringType \<Rightarrow> NewSetStringRecord g bytes
                | SetBoolType \<Rightarrow> NewSetBoolRecord g bytes
                | SetLongType \<Rightarrow> NewSetLongRecord g bytes
                | SetShortType \<Rightarrow> NewSetShortRecord g bytes
                | SetDateType \<Rightarrow> NewSetDateRecord g bytes)))"

text \<open>
  The writers. Each builds the record in a fresh byte slice and appends it to the log;
  the first function of each pair is the slice that is handed to Append.
  WriteStartToLog and WriteRollbackToLog store the transaction number at the literal
  offset 4, WriteCommitToLog at \<open>IntSize\<close>; WriteCheckpointToLog makes a slice of the
  literal length 4.
\<close>

definition StartRecord_bytes :: "goarch \<Rightarrow> int \<Rightarrow> error + byte list" where
  "StartRecord_bytes g txNum' =
     (case SetInt g (replicate (2 * IntSize g) 0) 0 (type_code Start) of
        Inl e \<Rightarrow> Inl e
      | Inr page \<Rightarrow> SetInt g page 4 txNum')"

definition CommitRecord_bytes :: "goarch \<Rightarrow> int \<Rightarrow> error + byte list" where
  "CommitRecord_bytes g txNum' =
     (case SetInt g (replicate (2 * IntSize g) 0) 0 (type_code Commit) of
        Inl e \<Rightarrow> Inl e
      | Inr page \<Rightarrow> SetInt g page (int (IntSize g)) txNum')"

definition RollbackRecord_bytes :: "goarch \<Rightarrow> int \<Rightarrow> error + byte list" where
  "RollbackRecord_bytes g txNum' =
     (case SetInt g (replicate (2 * IntSize g) 0) 0 (type_code Rollback) of
        Inl e \<Rightarrow> Inl e
      | Inr page \<Rightarrow> SetInt g page 4 txNum')"

definition CheckpointRecord_bytes :: "goarch \<Rightarrow> error + byte list" where
  "CheckpointRecord_bytes g = SetInt g (replicate 4 0) 0 (type_code Checkpoint)"

definition SetIntRecord_bytes :: "goarch \<Rightarrow> int \<Rightarrow> BlockId \<Rightarrow> int \<Rightarrow> int \<Rightarrow> error + byte list" where
  "SetIntRecord_bytes g txNum' block offset val =
     (let operationPos = 0;
          txNumPos = operationPos + int (IntSize g);
          fileNamePos = txNumPos + int (IntSize g);
          fileName = File block;
          blockNumPos = go_int g (fileNamePos + MaxLength g (int (length (File block))));
          blockNum = BlockNumber block;
          offsetPos = go_int g (blockNumPos + int (IntSize g));
          valuePos = go_int g (offsetPos + int (IntSize g));
          recordLen = go_int g (valuePos + int (IntSize g))
      in case SetInt g (replicate (nat recordLen) 0) operationPos (type_code SetIntType) of
           Inl e \<Rightarrow> Inl e
         | Inr p1 \<Rightarrow>
         (case SetInt g p1 txNumPos txNum' of
            Inl e \<Rightarrow> Inl e
          | Inr p2 \<Rightarrow>
          (case SetString g p2 fileNamePos fileName of
             Inl e \<Rightarrow> Inl e
           | Inr p3 \<Rightarrow>
           (case SetInt g p3 blockNumPos blockNum of
              Inl e \<Rightarrow> Inl e
            | Inr p4 \<Rightarrow>
            (case SetInt g p4 offsetPos offset of
               Inl e \<Rightarrow> Inl e
             | Inr p5 \<Rightarrow> SetInt g p5 valuePos val)))))"

definition append_record ::
  "goarch \<Rightarrow> LogManager \<Rightarrow> error + byte list \<Rightarrow> error + (LogManager \<times> int)" where
  "append_record g m r = (case r of Inl e \<Rightarrow> Inl e | Inr record \<Rightarrow> log_Append g m record)"

definition WriteStartToLog :: "goarch \<Rightarrow> LogManager \<Rightarrow> int \<Rightarrow> error + (LogManager \<times> int)" where
  "WriteStartToLog g m txNum' = append_record g m (StartRecord_bytes g txNum')"

definition WriteCommitToLog :: "goarch \<Rightarrow> LogManager \<Rightarrow> int \<Rightarrow> error + (LogManager \<times> int)" where
  "WriteCommitToLog g m txNum' = append_record g m (CommitRecord_bytes g txNum')"

definition WriteRollbackToLog :: "goarch \<Rightarrow> LogManager \<Rightarrow> int \<Rightarrow> error + (LogManager \<times> int)" where
  "WriteRollbackToLog g m txNum' = append_record g m (RollbackRecord_bytes g txNum')"

definition WriteCheckpointToLog :: "goarch \<Rightarrow> LogManager \<Rightarrow> error + (LogManager \<times> int)" where
  "WriteCheckpointToLog g m = append_record g m (CheckpointRecord_bytes g)"

definition WriteSetIntToLog ::
  "goarch \<Rightarrow> LogManager \<Rightarrow> int \<Rightarrow> BlockId \<Rightarrow> int \<Rightarrow> int \<Rightarrow> error + (LogManager \<times> int)" where
  "WriteSetIntToLog g m txNum' block offset val =
     append_record g m (SetIntRecord_bytes g txNum' block offset val)"

section \<open>Recovery (tx/recovery_manager.go)\<close>

text \<open>
  The recovery manager reaches the transaction and the buffer pool only through calls:
  \<^verbatim>\<open>tx.Pin\<close>, \<^verbatim>\<open>tx.SetInt(..., false)\<close> and its siblings, \<^verbatim>\<open>tx.Unpin\<close> (the Undo of an
  update record) and \<^verbatim>\<open>bufferManager.FlushAll\<close>. The model keeps the list of the calls
  made; which of them return an error is an input (\<open>fails\<close>, given the calls made so
  far). The log is the log manager above, on the modelled disk.
\<close>

datatype tx_call =
    TxPin BlockId | TxUnpin BlockId
  | TxSetInt BlockId int int bool | TxSetString BlockId int string bool
  | TxSetBool BlockId int bool bool | TxSetLong BlockId int int bool
  | TxSetShort BlockId int int bool | TxSetDate BlockId int int bool
  | FlushAll int

type_synonym tx_oracle = "tx_call list \<Rightarrow> tx_call \<Rightarrow> bool"

definition undo_update :: "tx_oracle \<Rightarrow> BlockId \<Rightarrow> tx_call \<Rightarrow> tx_call list \<Rightarrow> error + tx_call list" where
  "undo_update fails block setCall calls =
     (if fails calls (TxPin block) then Inl TxFailure
      else (let c1 = calls @ [TxPin block]
            in if fails c1 setCall then Inl TxFailure
               else Inr (c1 @ [setCall, TxUnpin block])))"

fun Undo :: "tx_oracle \<Rightarrow> LogRecord \<Rightarrow> tx_call list \<Rightarrow> error + tx_call list" where
  "Undo fails CheckpointRecord calls = Inr calls"
| "Undo fails (StartRecord t) calls = Inr calls"
| "Undo fails (CommitRecord t) calls = Inr calls"
| "Undo fails (RollbackRecord t) calls = Inr calls"
| "Undo fails (SetIntRecord t off v blk) calls = undo_update fails blk (TxSetInt blk off v False) calls"
| "Undo fails (SetStringRecord t off v blk) calls = undo_update fails blk (TxSetString blk off v False) calls"
| "Undo fails (SetBoolRecord t off v blk) calls = undo_update fails blk (TxSetBool blk off v False) calls"
| "Undo fails (SetLongRecord t off v blk) calls = undo_update fails blk (TxSetLong blk off v False) calls"
| "Undo fails (SetShortRecord t off v blk) calls = undo_update fails blk (TxSetShort blk off v False) calls"
| "Undo fails (SetDateRecord t off v blk) calls = undo_update fails blk (TxSetDate blk off v False) calls"

fun contains :: "int list \<Rightarrow> int \<Rightarrow> bool" where
  "contains [] element = False"
| "contains (v # vs) element = (if v = element then True else contains vs element)"

text \<open>
  The loop of doRecover runs on the iterator, and ends as \<open>Iterator_all\<close> does. An
  error that Next returns ends the loop with \<^verbatim>\<open>return nil\<close>; a panic of Next is no
  error value and goes up the stack.
\<close>

function doRecover_loop ::
  "goarch \<Rightarrow> tx_oracle \<Rightarrow> FileManager \<Rightarrow> Iterator \<Rightarrow> int list \<Rightarrow> tx_call list
     \<Rightarrow> error + (FileManager \<times> tx_call list)" where
  "doRecover_loop g fails fm it finishedTransactions calls =
     (if \<not> HasNext fm it then Inr (fm, calls)
      else (case Next g fm it of
              Inl e \<Rightarrow> if e = Panic then Inl Panic else Inr (fm, calls)
            | Inr (fm1, it1, bytes) \<Rightarrow>
                (case CreateLogRecord g bytes of
                   Inl e \<Rightarrow> Inl e
                 | Inr logRecord \<Rightarrow>
                     if Op logRecord = Checkpoint then Inr (fm1, calls)
                     else if Op logRecord = Commit \<or> Op logRecord = Rollback
                     then doRecover_loop g fails fm1 it1
                            (finishedTransactions @ [TxNumber logRecord]) calls
                     else if \<not> contains finishedTransactions (TxNumber logRecord)
                     then (case Undo fails logRecord calls of
                             Inl e \<Rightarrow> Inl e
                           | Inr calls1 \<Rightarrow>
                               doRecover_loop g fails fm1 it1 finishedTransactions calls1)
                     else doRecover_loop g fails fm1 it1 finishedTransactions calls)))"
  by pat_completeness auto
termination
proof -
  have dec: "(it_measure it1, it_measure it) \<in> less_than <*lex*> less_than"
    if "HasNext fm it" and "Next g fm it = Inr (fm1, it1, bytes)"
    for g fm it fm1 it1 bytes
  proof (cases "currentPosition it = blockSize fm")
    case True
    with that(1) have pos: "BlockNumber (it_block it) > 0" by (simp add: HasNext_def)
    from that(2) True pos
    have "BlockNumber (it_block it1) = go_int g (BlockNumber (it_block it) - 1)"
      by (auto simp: Next_def moveToBlock_def Let_def split: sum.splits if_splits prod.splits)
    moreover have "go_int g (BlockNumber (it_block it) - 1) \<le> BlockNumber (it_block it) - 1"
      unfolding go_int_def signed_take_bit_int_less_eq_self_iff
      using pos by (smt (verit) zero_less_power)
    ultimately show ?thesis using pos by (simp add: it_measure_def)
  next
    case False
    from that(2) False obtain rcd where
      gb: "GetBytes g (it_page it) (currentPosition it) = Inr rcd"
      and it1: "it1 = it\<lparr>currentPosition := currentPosition it + (4 + int (length rcd))\<rparr>"
      by (auto simp: Next_def split: sum.splits)
    from gb have "0 \<le> currentPosition it" "currentPosition it < int (length (it_page it))"
      by (auto simp: GetBytes_def GetInt_def IntSize_def split: sum.splits if_splits)
    then show ?thesis unfolding it1 it_measure_def by auto
  qed
  show ?thesis
  proof (relation "inv_image (less_than <*lex*> less_than)
                     (\<lambda>(g, fails, fm, it, fin, calls). it_measure it)")
    show "wf (inv_image (less_than <*lex*> less_than)
                (\<lambda>(g, fails, fm, it, fin, calls). it_measure it))"
      by (intro wf_inv_image wf_lex_prod wf_less_than)
  qed (auto dest: dec simp del: less_than_iff)
qed

declare doRecover_loop.simps [simp del]

record RecoveryManager =
  rm_logManager :: LogManager
  rm_txNum :: int
  rm_calls :: "tx_call list"

definition doRecover :: "goarch \<Rightarrow> tx_oracle \<Rightarrow> RecoveryManager \<Rightarrow> error + RecoveryManager" where
  "doRecover g fails rm =
     (case log_Iterator g (rm_logManager rm) of
        Inl e \<Rightarrow> Inl e
      | Inr (m1, iter) \<Rightarrow>
          (case doRecover_loop g fails (fileManager m1) iter [] (rm_calls rm) of
             Inl e \<Rightarrow> Inl e
           | Inr (fm2, calls) \<Rightarrow>
               Inr (rm\<lparr>rm_logManager := m1\<lparr>fileManager := fm2\<rparr>, rm_calls := calls\<rparr>)))"

definition Recover :: "goarch \<Rightarrow> tx_oracle \<Rightarrow> RecoveryManager \<Rightarrow> error + RecoveryManager" where
  "Recover g fails rm =
     (case doRecover g fails rm of
        Inl e \<Rightarrow> Inl e
      | Inr rm1 \<Rightarrow>
          if fails (rm_calls rm1) (FlushAll (rm_txNum rm1)) then Inl TxFailure
          else (let rm2 = rm1\<lparr>rm_calls := rm_calls rm1 @ [FlushAll (rm_txNum rm1)]\<rparr>
                in case WriteCheckpointToLog g (rm_logManager rm2) of
                     Inl e \<Rightarrow> Inl e
                   | Inr (m3, lsn') \<Rightarrow>
                       (case log_Flush g m3 lsn' of
                          Inl e \<Rightarrow> Inl e
                        | Inr m4 \<Rightarrow> Inr (rm2\<lparr>rm_logManager := m4\<rparr>))))"

section \<open>Properties of the lock table\<close>

lemma max_int_pos: "1 < max_int g"
proof -
  have "(2::int) ^ 2 \<le> 2 ^ (int_bits g - 1)"
    by (rule power_increasing) (simp_all add: int_bits_def)
  then show ?thesis by (simp add: max_int_def)
qed

lemma go_int_in_range:
  assumes "- max_int g - 1 \<le> x" and "x \<le> max_int g"
  shows "go_int g x = x"
  unfolding go_int_def using assms
  by (intro signed_take_bit_int_eq_self) (simp_all add: max_int_def)

lemma go_int_id:
  assumes "0 \<le> x" and "x < 2 ^ 31"
  shows "go_int g x = x"
proof (rule go_int_in_range)
  from assms(1) max_int_pos[of g] show "- max_int g - 1 \<le> x" by simp
  have "(2::int) ^ 31 \<le> 2 ^ (int_bits g - 1)"
    by (rule power_increasing) (simp_all add: int_bits_def)
  with assms(2) show "x \<le> max_int g" by (simp add: max_int_def)
qed

lemma go_int_small:
  assumes "- (2 ^ 31) \<le> x" and "x < 2 ^ 31"
  shows "go_int g x = x"
proof (rule go_int_in_range)
  have "(2::int) ^ 31 \<le> 2 ^ (int_bits g - 1)"
    by (rule power_increasing) (simp_all add: int_bits_def)
  with assms show "- max_int g - 1 \<le> x" and "x \<le> max_int g"
    by (simp_all add: max_int_def)
qed

lemma lock_invD:
  "lock_inv g lt \<Longrightarrow> lt b = Some v \<Longrightarrow> v = - 1 \<or> (0 < v \<and> v \<le> max_int g)"
  unfolding lock_inv_def by (erule allE[of _ b]) simp

lemma lock_invI:
  assumes "\<And>b v. lt b = Some v \<Longrightarrow> v = - 1 \<or> (0 < v \<and> v \<le> max_int g)"
  shows "lock_inv g lt"
  unfolding lock_inv_def using assms by (auto split: option.splits)

lemma getLockVal_bounds:
  assumes "lock_inv g lt"
  shows "getLockVal lt b = - 1 \<or> (0 \<le> getLockVal lt b \<and> getLockVal lt b \<le> max_int g)"
proof (cases "lt b")
  case None
  with max_int_pos[of g] show ?thesis by (simp add: getLockVal_def)
next
  case (Some v)
  with lock_invD[OF assms Some] show ?thesis by (auto simp: getLockVal_def)
qed

lemma lock_inv_step:
  assumes inv: "lock_inv g lt" and n: "call_in_range g lt c"
    and st: "lock_step g lt c = Some lt'"
  shows "lock_inv g lt'"
proof (cases c)
  case (CallSLock b)
  with st have nx: "\<not> hasXLock lt b"
    and lt': "lt' = lt(b \<mapsto> go_int g (getLockVal lt b + 1))"
    by (auto split: if_splits)
  from getLockVal_bounds[OF inv, of b] nx
  have v: "0 \<le> getLockVal lt b"
    by (auto simp: hasXLock_def)
  from n CallSLock have v2: "getLockVal lt b < max_int g" by simp
  from v v2 have eq: "go_int g (getLockVal lt b + 1) = getLockVal lt b + 1"
    by (intro go_int_in_range) auto
  show ?thesis
  proof (rule lock_invI)
    fix c v assume "lt' c = Some v"
    then show "v = - 1 \<or> (0 < v \<and> v \<le> max_int g)"
      using v v2 eq lock_invD[OF inv, of c v] unfolding lt' by (auto split: if_splits)
  qed
next
  case (CallXLock b)
  with st have lt': "lt' = lt(b \<mapsto> - 1)" by (auto split: if_splits)
  show ?thesis
  proof (rule lock_invI)
    fix c v assume "lt' c = Some v"
    then show "v = - 1 \<or> (0 < v \<and> v \<le> max_int g)"
      using lock_invD[OF inv, of c v] unfolding lt' by (auto split: if_splits)
  qed
next
  case (CallUnlock b)
  with st have lt': "lt' = Unlock g lt b" by simp
  show ?thesis
  proof (cases "getLockVal lt b > 1")
    case True
    with getLockVal_bounds[OF inv, of b] have v: "getLockVal lt b \<le> max_int g" by auto
    with True have eq: "go_int g (getLockVal lt b - 1) = getLockVal lt b - 1"
      by (intro go_int_in_range) auto
    show ?thesis
    proof (rule lock_invI)
      fix c v assume "lt' c = Some v"
      then show "v = - 1 \<or> (0 < v \<and> v \<le> max_int g)"
        using True v eq lock_invD[OF inv, of c v] unfolding lt' Unlock_def Let_def
        by (auto split: if_splits)
    qed
  next
    case False
    show ?thesis
    proof (rule lock_invI)
      fix c v assume "lt' c = Some v"
      then show "v = - 1 \<or> (0 < v \<and> v \<le> max_int g)"
        using False lock_invD[OF inv, of c v] unfolding lt' Unlock_def Let_def
        by (auto split: if_splits)
    qed
  qed
qed

lemma lock_inv_run:
  "lock_inv g lt \<Longrightarrow> counters_in_range g lt cs \<Longrightarrow> lock_run g lt cs = Some lt'
     \<Longrightarrow> lock_inv g lt'"
proof (induction cs arbitrary: lt)
  case Nil
  then show ?case by simp
next
  case (Cons c cs)
  from Cons.prems(3) obtain lt1 where s: "lock_step g lt c = Some lt1"
    and r: "lock_run g lt1 cs = Some lt'"
    by (auto split: option.splits)
  from Cons.prems(2) s have c: "call_in_range g lt c" and cs: "counters_in_range g lt1 cs"
    by simp_all
  from Cons.prems(1) c s have "lock_inv g lt1" by (rule lock_inv_step)
  from Cons.IH[OF this cs r] show ?case .
qed


text \<open>
  A call that had to wait is granted in the state it finds at its last wake-up, exactly
  as a call that meets that state at once: this is why a history of granted calls
  describes every reachable table.
\<close>

lemma SLock_granted_somewhere:
  "SLock g lt b ws = Some r \<Longrightarrow> lock_err r = None \<Longrightarrow>
     \<exists>lt0 \<in> insert lt (fst ` set ws). granted (SLock g lt0 b []) = Some (lock_table r)"
proof (induction ws arbitrary: lt r)
  case Nil
  then show ?case by (auto split: if_splits)
next
  case (Cons w ws)
  show ?case
  proof (cases "hasXLock lt b")
    case False
    with Cons.prems show ?thesis by auto
  next
    case True
    obtain lt' expired where w: "w = (lt', expired)" by (cases w)
    from Cons.prems True w have ne: "\<not> expired"
      by (auto split: if_splits)
    with Cons.prems True w obtain r' where r': "SLock g lt' b ws = Some r'" "r = waited r'"
      by auto
    with Cons.prems(2) have "lock_err r' = None" by (simp add: waited_def)
    from Cons.IH[OF r'(1) this] r'(2) w show ?thesis
      by (auto simp: waited_def)
  qed
qed

lemma XLock_granted_somewhere:
  "XLock lt b ws = Some r \<Longrightarrow> lock_err r = None \<Longrightarrow>
     \<exists>lt0 \<in> insert lt (fst ` set ws). granted (XLock lt0 b []) = Some (lock_table r)"
proof (induction ws arbitrary: lt r)
  case Nil
  then show ?case by (auto split: if_splits)
next
  case (Cons w ws)
  show ?case
  proof (cases "hasOtherSLocks lt b")
    case False
    with Cons.prems show ?thesis by auto
  next
    case True
    obtain lt' expired where w: "w = (lt', expired)" by (cases w)
    from Cons.prems True w have ne: "\<not> expired"
      by (auto split: if_splits)
    with Cons.prems True w obtain r' where r': "XLock lt' b ws = Some r'" "r = waited r'"
      by auto
    with Cons.prems(2) have "lock_err r' = None" by (simp add: waited_def)
    from Cons.IH[OF r'(1) this] r'(2) w show ?thesis
      by (auto simp: waited_def)
  qed
qed

lemma max_int_values: "max_int GO386 = 2147483647" "max_int GOAMD64 = 9223372036854775807"
  by (simp_all add: max_int_def int_bits_def)

text \<open>
  C6. In every state of the lock table reached from the empty table by a sequence of
  successful SLock, XLock and Unlock calls in which no SLock is granted on a block whose
  counter already is the largest \<^verbatim>\<open>int\<close>, every block's entry is absent, - 1 or a
  strictly positive number; no entry is zero. The sequence may have any length.
\<close>

theorem lock_entries_never_zero:
  assumes "lock_run g Map.empty calls = Some lt" and "counters_in_range g Map.empty calls"
  shows "lock_entry_ok (lt b) \<and> lt b \<noteq> Some 0"
proof -
  have "lock_inv g Map.empty" by (simp add: lock_inv_def)
  from lock_inv_run[OF this assms(2) assms(1)]
  have inv: "lock_inv g lt" .
  show ?thesis
  proof (cases "lt b")
    case None
    then show ?thesis by simp
  next
    case (Some v)
    from lock_invD[OF inv Some] Some show ?thesis by auto
  qed
qed

theorem lock_entries_never_zero_witness:
  "lock_run GOAMD64 Map.empty
     [CallSLock \<lparr>File = ''f'', BlockNumber = 1\<rparr>, CallSLock \<lparr>File = ''f'', BlockNumber = 1\<rparr>,
      CallUnlock \<lparr>File = ''f'', BlockNumber = 1\<rparr>, CallXLock \<lparr>File = ''f'', BlockNumber = 2\<rparr>]
     = Some [\<lparr>File = ''f'', BlockNumber = 1\<rparr> \<mapsto> 1, \<lparr>File = ''f'', BlockNumber = 2\<rparr> \<mapsto> - 1]
   \<and> counters_in_range GOAMD64 Map.empty
     [CallSLock \<lparr>File = ''f'', BlockNumber = 1\<rparr>, CallSLock \<lparr>File = ''f'', BlockNumber = 1\<rparr>,
      CallUnlock \<lparr>File = ''f'', BlockNumber = 1\<rparr>, CallXLock \<lparr>File = ''f'', BlockNumber = 2\<rparr>]
   \<and> lock_entry_ok ([\<lparr>File = ''f'', BlockNumber = 1\<rparr> \<mapsto> 1, \<lparr>File = ''f'', BlockNumber = 2\<rparr> \<mapsto> - 1]
         \<lparr>File = ''f'', BlockNumber = 1\<rparr>)
   \<and> [\<lparr>File = ''f'', BlockNumber = 1\<rparr> \<mapsto> (1::int), \<lparr>File = ''f'', BlockNumber = 2\<rparr> \<mapsto> - 1]
         \<lparr>File = ''f'', BlockNumber = 1\<rparr> \<noteq> Some 0"
proof -
  have run: "lock_run GOAMD64 Map.empty
     [CallSLock \<lparr>File = ''f'', BlockNumber = 1\<rparr>, CallSLock \<lparr>File = ''f'', BlockNumber = 1\<rparr>,
      CallUnlock \<lparr>File = ''f'', BlockNumber = 1\<rparr>, CallXLock \<lparr>File = ''f'', BlockNumber = 2\<rparr>]
     = Some [\<lparr>File = ''f'', BlockNumber = 1\<rparr> \<mapsto> 1, \<lparr>File = ''f'', BlockNumber = 2\<rparr> \<mapsto> - 1]"
    by (simp add: hasXLock_def hasOtherSLocks_def getLockVal_def Unlock_def go_int_id)
  have rng: "counters_in_range GOAMD64 Map.empty
     [CallSLock \<lparr>File = ''f'', BlockNumber = 1\<rparr>, CallSLock \<lparr>File = ''f'', BlockNumber = 1\<rparr>,
      CallUnlock \<lparr>File = ''f'', BlockNumber = 1\<rparr>, CallXLock \<lparr>File = ''f'', BlockNumber = 2\<rparr>]"
    by (simp add: hasXLock_def hasOtherSLocks_def getLockVal_def Unlock_def go_int_id max_int_values)
  from lock_entries_never_zero[OF run rng, of "\<lparr>File = ''f'', BlockNumber = 1\<rparr>"] run rng
  show ?thesis by simp
qed

text \<open>
  Without that restriction the shape is lost: SLock has no test for overflow, and on a
  machine with a 32-bit \<^verbatim>\<open>int\<close> the \<open>2 ^ 31\<close>-th shared lock on one block is granted
  and stores the smallest \<^verbatim>\<open>int\<close>, which is neither - 1 nor positive.
\<close>

lemma SLock_run:
  assumes "0 \<le> getLockVal lt b" and "getLockVal lt b + int n \<le> max_int g + 1" and "0 < n"
  shows "lock_run g lt (replicate n (CallSLock b))
          = Some (lt(b \<mapsto> go_int g (getLockVal lt b + int n)))"
  using assms
proof (induction n arbitrary: lt)
  case 0
  then show ?case by simp
next
  case (Suc n)
  let ?k = "getLockVal lt b"
  let ?lt1 = "lt(b \<mapsto> go_int g (?k + 1))"
  from Suc.prems(1) have nx: "\<not> hasXLock lt b" by (simp add: hasXLock_def)
  then have st: "lock_step g lt (CallSLock b) = Some ?lt1" by simp
  show ?case
  proof (cases "n = 0")
    case True
    have a0: "?k + int (Suc 0) = ?k + 1" by simp
    show ?thesis unfolding True a0
      by (simp only: replicate.simps lock_run.simps st option.case)
  next
    case False
    with Suc.prems have "?k + 1 \<le> max_int g" by simp
    with Suc.prems(1) max_int_pos[of g] have eq: "go_int g (?k + 1) = ?k + 1"
      by (intro go_int_in_range) simp_all
    then have k1: "getLockVal ?lt1 b = ?k + 1" by (simp add: getLockVal_def)
    have p1: "0 \<le> getLockVal ?lt1 b" unfolding k1 using Suc.prems(1) by simp
    have p2: "getLockVal ?lt1 b + int n \<le> max_int g + 1"
      unfolding k1 using Suc.prems(2) by simp
    from False have p3: "0 < n" by simp
    have a: "?k + int (Suc n) = ?k + 1 + int n" by simp
    have r: "lock_run g ?lt1 (replicate n (CallSLock b))
               = Some (lt(b \<mapsto> go_int g (?k + 1 + int n)))"
      using Suc.IH[OF p1 p2 p3] unfolding k1 by (simp only: fun_upd_upd)
    show ?thesis unfolding a
      by (simp only: replicate.simps lock_run.simps st option.case r)
  qed
qed

theorem SLock_counter_wraps_on_386:
  "lock_run GO386 Map.empty (replicate 2147483648 (CallSLock \<lparr>File = ''f'', BlockNumber = 1\<rparr>))
     = Some [\<lparr>File = ''f'', BlockNumber = 1\<rparr> \<mapsto> - 2147483648]
   \<and> \<not> lock_entry_ok ([\<lparr>File = ''f'', BlockNumber = 1\<rparr> \<mapsto> - 2147483648]
           \<lparr>File = ''f'', BlockNumber = 1\<rparr>)"
proof -
  have w: "go_int GO386 2147483648 = - 2147483648"
    by (simp add: go_int_def int_bits_def signed_take_bit_eq_take_bit_shift take_bit_eq_mod)
  have "lock_run GO386 Map.empty (replicate 2147483648 (CallSLock \<lparr>File = ''f'', BlockNumber = 1\<rparr>))
     = Some (Map.empty(\<lparr>File = ''f'', BlockNumber = 1\<rparr> \<mapsto>
          go_int GO386 (getLockVal Map.empty \<lparr>File = ''f'', BlockNumber = 1\<rparr> + int 2147483648)))"
    by (rule SLock_run) (simp_all add: getLockVal_def max_int_values)
  then show ?thesis by (simp add: getLockVal_def w)
qed


text \<open>
  C7. XLock on a block whose entry is absent from the lock table (the counter reads 0:
  the caller holds no shared lock) succeeds at once, without waiting, whatever the other
  goroutines would have done, and sets the block's entry to - 1.
\<close>

theorem XLock_on_absent_entry:
  assumes "lt b = None"
  shows "XLock lt b ws = Some \<lparr>lock_err = None, lock_table = lt(b \<mapsto> - 1), lock_waits = 0\<rparr>"
  using assms by (simp add: hasOtherSLocks_def getLockVal_def)

theorem XLock_on_absent_entry_witness:
  "Map.empty \<lparr>File = ''f'', BlockNumber = 1\<rparr> = (None :: int option)
   \<and> XLock Map.empty \<lparr>File = ''f'', BlockNumber = 1\<rparr> [([\<lparr>File = ''f'', BlockNumber = 1\<rparr> \<mapsto> 2], True)]
     = Some \<lparr>lock_err = None, lock_table = [\<lparr>File = ''f'', BlockNumber = 1\<rparr> \<mapsto> - 1],
              lock_waits = 0\<rparr>"
proof -
  have h: "(Map.empty :: LockTable) \<lparr>File = ''f'', BlockNumber = 1\<rparr> = None" by simp
  from XLock_on_absent_entry[OF h, where ws = "[([\<lparr>File = ''f'', BlockNumber = 1\<rparr> \<mapsto> 2], True)]"]
  show ?thesis by simp
qed

section \<open>Properties of buffers and buffer lists\<close>

lemma SetModified_fields [simp]:
  "txnNum (SetModified b t l) = t"
  "lsn (SetModified b t l) = (if 0 \<le> l then l else lsn b)"
  by (simp_all add: SetModified_def Let_def)

lemma SetModified_history_sorted:
  "sorted (map lsn (b # SetModified_history b cs))
     = sorted (lsn b # filter (\<lambda>l. 0 \<le> l) (map snd cs))"
proof (induction cs arbitrary: b)
  case Nil
  then show ?case by simp
next
  case (Cons c cs)
  obtain t l where c: "c = (t, l)" by (cases c)
  let ?b' = "SetModified b t l"
  have "sorted (map lsn (b # SetModified_history b (c # cs)))
          = (lsn b \<le> lsn ?b' \<and> sorted (map lsn (?b' # SetModified_history ?b' cs)))"
    unfolding c by (simp only: SetModified_history.simps list.map sorted2)
  also have "\<dots> = (lsn b \<le> lsn ?b' \<and> sorted (lsn ?b' # filter (\<lambda>l. 0 \<le> l) (map snd cs)))"
    by (simp only: Cons.IH)
  also have "\<dots> = sorted (lsn b # filter (\<lambda>l. 0 \<le> l) (map snd (c # cs)))"
    unfolding c by (cases "0 \<le> l") auto
  finally show ?case .
qed

text \<open>
  C10. SetModified(txnum, lsn) always records txnum as the modifying transaction and
  stores lsn only when it is not negative. A write that is not logged (an undo: SetInt
  with logIt false passes - 1) leaves the stored LSN as it was, so it never lowers the
  frame's LSN. SetModified compares no LSNs: a call lowers the stored LSN exactly when
  its lsn is not negative and smaller than the stored one, and over a run of calls the
  frame's LSN never decreases exactly when the non-negative LSNs passed in, after the
  one stored at the start, never decrease.
\<close>

theorem SetModified_lsn_never_decreases:
  "txnNum (SetModified b t l) = t
   \<and> lsn (SetModified b t l) = (if 0 \<le> l then l else lsn b)
   \<and> (Transaction_SetInt_buffer g t b off v None = Inr b' \<longrightarrow> txnNum b' = t \<and> lsn b' = lsn b)
   \<and> (lsn b \<le> lsn (SetModified b t l)) = (l < 0 \<or> lsn b \<le> l)
   \<and> sorted (map lsn (b # SetModified_history b cs))
        = sorted (lsn b # filter (\<lambda>l. 0 \<le> l) (map snd cs))"
proof (intro conjI impI)
  assume "Transaction_SetInt_buffer g t b off v None = Inr b'"
  then obtain page where "b' = SetModified (b\<lparr>contents := page\<rparr>) t (- 1)"
    by (auto simp: Transaction_SetInt_buffer_def split: sum.splits)
  then show "txnNum b' = t" and "lsn b' = lsn b" by simp_all
next
  show "sorted (map lsn (b # SetModified_history b cs))
        = sorted (lsn b # filter (\<lambda>l. 0 \<le> l) (map snd cs))"
    by (rule SetModified_history_sorted)
next
  show "(lsn b \<le> lsn (SetModified b t l)) = (l < 0 \<or> lsn b \<le> l)" by auto
qed simp_all

theorem SetModified_lsn_never_decreases_witness:
  "Transaction_SetInt_buffer GOAMD64 3
      \<lparr>contents = replicate 8 0, buf_block = None, pins = 1, txnNum = 2, lsn = 5\<rparr> 0 0 None
     = Inr \<lparr>contents = replicate 8 0, buf_block = None, pins = 1, txnNum = 3, lsn = 5\<rparr>
   \<and> sorted (lsn \<lparr>contents = replicate 8 0, buf_block = None, pins = 1, txnNum = 2, lsn = 5\<rparr>
              # filter (\<lambda>l. 0 \<le> l) (map snd [(2::int, 6), (3, - 1), (2, 9)]))
   \<and> map lsn (SetModified_history
                 \<lparr>contents = replicate 8 0, buf_block = None, pins = 1, txnNum = 2, lsn = 5\<rparr>
                 [(2::int, 6), (3, - 1), (2, 9)]) = [6, 6, 9]
   \<and> map txnNum (SetModified_history
                 \<lparr>contents = replicate 8 0, buf_block = None, pins = 1, txnNum = 2, lsn = 5\<rparr>
                 [(2::int, 6), (3, - 1), (2, 9)]) = [2, 3, 2]"
proof -
  let ?b = "\<lparr>contents = replicate 8 0, buf_block = None, pins = 1, txnNum = 2, lsn = 5\<rparr>"
  have setCall: "Transaction_SetInt_buffer GOAMD64 3 ?b 0 0 None
      = Inr \<lparr>contents = replicate 8 0, buf_block = None, pins = 1, txnNum = 3, lsn = 5\<rparr>"
    by (simp add: Transaction_SetInt_buffer_def SetInt_def IntSize_def copy_at_def
        SetModified_def numeral_eq_Suc)
  have srt: "sorted (lsn ?b # filter (\<lambda>l. 0 \<le> l) (map snd [(2::int, 6), (3, - 1), (2, 9)]))"
    by simp
  from SetModified_lsn_never_decreases[of ?b 3 "- 1" GOAMD64 0 0
      "\<lparr>contents = replicate 8 0, buf_block = None, pins = 1, txnNum = 3, lsn = 5\<rparr>"
      "[(2::int, 6), (3, - 1), (2, 9)]"] setCall srt
  show ?thesis by (simp add: SetModified_def)
qed

text \<open>
  A logged modification with a smaller LSN than the stored one lowers the frame's LSN:
  on a new buffer, SetModified(4, 3) and then SetModified(4, 1) leave the LSNs 3 and 1.
\<close>

theorem SetModified_stores_smaller_lsn:
  "map lsn (SetModified_history
              \<lparr>contents = [], buf_block = None, pins = 0, txnNum = - 1, lsn = - 1\<rparr>
              [(4, 3), (4, 1)]) = [3, 1]
   \<and> \<not> sorted (map lsn (SetModified_history
              \<lparr>contents = [], buf_block = None, pins = 0, txnNum = - 1, lsn = - 1\<rparr>
              [(4, 3), (4, 1)]))"
  by (simp add: SetModified_def)


text \<open>
  C9. Unpin of a block that the transaction has not pinned returns silently and changes
  nothing: the transaction (its buffer list, and with it the pool's frames, their pin
  counts and the number of available frames) is the same afterwards. A block whose last
  pin is released by Unpin is in that state, so that a second Unpin changes nothing.
\<close>

theorem Unpin_of_unpinned_block_changes_nothing:
  "(buffers (myBuffers tx) block = None \<longrightarrow>
      Transaction_Unpin tx block = tx
      \<and> buffers (myBuffers (Transaction_Unpin tx block)) = buffers (myBuffers tx)
      \<and> map pins (bufferPool (bufferManager (myBuffers (Transaction_Unpin tx block))))
          = map pins (bufferPool (bufferManager (myBuffers tx)))
      \<and> numAvailable (bufferManager (myBuffers (Transaction_Unpin tx block)))
          = numAvailable (bufferManager (myBuffers tx)))
   \<and> (buffers (myBuffers tx) block = Some pb \<and> refCount pb \<le> 1 \<longrightarrow>
        buffers (myBuffers (Transaction_Unpin tx block)) block = None
        \<and> Transaction_Unpin (Transaction_Unpin tx block) block = Transaction_Unpin tx block)"
proof (intro conjI impI)
  assume "buffers (myBuffers tx) block = None"
  then have eq: "Transaction_Unpin tx block = tx"
    by (simp add: Transaction_Unpin_def BufferList_Unpin_def)
  then show "Transaction_Unpin tx block = tx" .
  from eq show "buffers (myBuffers (Transaction_Unpin tx block)) = buffers (myBuffers tx)"
    by simp
  from eq show "map pins (bufferPool (bufferManager (myBuffers (Transaction_Unpin tx block))))
          = map pins (bufferPool (bufferManager (myBuffers tx)))" by simp
  from eq show "numAvailable (bufferManager (myBuffers (Transaction_Unpin tx block)))
          = numAvailable (bufferManager (myBuffers tx))" by simp
next
  assume a: "buffers (myBuffers tx) block = Some pb \<and> refCount pb \<le> 1"
  then show gone: "buffers (myBuffers (Transaction_Unpin tx block)) block = None"
    by (simp add: Transaction_Unpin_def BufferList_Unpin_def Let_def)
  then show "Transaction_Unpin (Transaction_Unpin tx block) block = Transaction_Unpin tx block"
    by (simp add: Transaction_Unpin_def BufferList_Unpin_def)
qed

theorem Unpin_of_unpinned_block_changes_nothing_witness:
  "Transaction_Unpin
      \<lparr>txNum = 1,
       myBuffers = \<lparr>buffers = [\<lparr>File = ''f'', BlockNumber = 1\<rparr> \<mapsto> \<lparr>pb_buffer = 0, refCount = 1\<rparr>],
                    bufferManager =
                      \<lparr>bufferPool = [\<lparr>contents = [], buf_block = Some \<lparr>File = ''f'', BlockNumber = 1\<rparr>,
                                      pins = 1, txnNum = - 1, lsn = - 1\<rparr>],
                       numAvailable = 0\<rparr>\<rparr>\<rparr>
      \<lparr>File = ''f'', BlockNumber = 2\<rparr>
    = \<lparr>txNum = 1,
       myBuffers = \<lparr>buffers = [\<lparr>File = ''f'', BlockNumber = 1\<rparr> \<mapsto> \<lparr>pb_buffer = 0, refCount = 1\<rparr>],
                    bufferManager =
                      \<lparr>bufferPool = [\<lparr>contents = [], buf_block = Some \<lparr>File = ''f'', BlockNumber = 1\<rparr>,
                                      pins = 1, txnNum = - 1, lsn = - 1\<rparr>],
                       numAvailable = 0\<rparr>\<rparr>\<rparr>
   \<and> Transaction_Unpin
      (Transaction_Unpin
        \<lparr>txNum = 1,
         myBuffers = \<lparr>buffers = [\<lparr>File = ''f'', BlockNumber = 1\<rparr> \<mapsto> \<lparr>pb_buffer = 0, refCount = 1\<rparr>],
                      bufferManager =
                        \<lparr>bufferPool = [\<lparr>contents = [], buf_block = Some \<lparr>File = ''f'', BlockNumber = 1\<rparr>,
                                        pins = 1, txnNum = - 1, lsn = - 1\<rparr>],
                         numAvailable = 0\<rparr>\<rparr>\<rparr>
        \<lparr>File = ''f'', BlockNumber = 1\<rparr>)
      \<lparr>File = ''f'', BlockNumber = 1\<rparr>
    = \<lparr>txNum = 1,
       myBuffers = \<lparr>buffers = Map.empty,
                    bufferManager =
                      \<lparr>bufferPool = [\<lparr>contents = [], buf_block = Some \<lparr>File = ''f'', BlockNumber = 1\<rparr>,
                                      pins = 0, txnNum = - 1, lsn = - 1\<rparr>],
                       numAvailable = 1\<rparr>\<rparr>\<rparr>"
proof -
  let ?tx = "\<lparr>txNum = 1,
       myBuffers = \<lparr>buffers = [\<lparr>File = ''f'', BlockNumber = 1\<rparr> \<mapsto> \<lparr>pb_buffer = 0, refCount = 1\<rparr>],
                    bufferManager =
                      \<lparr>bufferPool = [\<lparr>contents = [], buf_block = Some \<lparr>File = ''f'', BlockNumber = 1\<rparr>,
                                      pins = 1, txnNum = - 1, lsn = - 1\<rparr>],
                       numAvailable = 0\<rparr>\<rparr>\<rparr>"
  have h1: "buffers (myBuffers ?tx) \<lparr>File = ''f'', BlockNumber = 2\<rparr> = None" by simp
  have h2: "buffers (myBuffers ?tx) \<lparr>File = ''f'', BlockNumber = 1\<rparr>
              = Some \<lparr>pb_buffer = 0, refCount = 1\<rparr>
            \<and> refCount \<lparr>pb_buffer = 0, refCount = 1\<rparr> \<le> 1" by simp
  have once: "Transaction_Unpin ?tx \<lparr>File = ''f'', BlockNumber = 1\<rparr>
     = \<lparr>txNum = 1,
       myBuffers = \<lparr>buffers = Map.empty,
                    bufferManager =
                      \<lparr>bufferPool = [\<lparr>contents = [], buf_block = Some \<lparr>File = ''f'', BlockNumber = 1\<rparr>,
                                      pins = 0, txnNum = - 1, lsn = - 1\<rparr>],
                       numAvailable = 1\<rparr>\<rparr>\<rparr>"
    by (simp add: Transaction_Unpin_def BufferList_Unpin_def bm_Unpin_def isPinned_def Let_def)
  from Unpin_of_unpinned_block_changes_nothing[of ?tx "\<lparr>File = ''f'', BlockNumber = 2\<rparr>"] h1
  have a: "Transaction_Unpin ?tx \<lparr>File = ''f'', BlockNumber = 2\<rparr> = ?tx" by blast
  from Unpin_of_unpinned_block_changes_nothing[of ?tx "\<lparr>File = ''f'', BlockNumber = 1\<rparr>"
      "\<lparr>pb_buffer = 0, refCount = 1\<rparr>"] h2
  have b: "Transaction_Unpin (Transaction_Unpin ?tx \<lparr>File = ''f'', BlockNumber = 1\<rparr>)
             \<lparr>File = ''f'', BlockNumber = 1\<rparr>
           = Transaction_Unpin ?tx \<lparr>File = ''f'', BlockNumber = 1\<rparr>" by blast
  from a b once show ?thesis by simp
qed

section \<open>Properties of the file manager\<close>

lemma getFile_keeps:
  assumes "getFile m name = Inr m1"
  shows "blockSize m1 = blockSize m" and "io_fault m1 = io_fault m"
    and "file_data m1 n = file_data m n" and "blocksRead m1 = blocksRead m"
  using assms by (auto simp: getFile_def file_data_def split: if_splits)

lemma getFile_no_fault:
  assumes "\<not> io_fault m (OpOpen name)"
  shows "\<exists>m1. getFile m name = Inr m1"
  using assms by (simp add: getFile_def)

lemma ReadFull_at_EOF:
  assumes "int (length (file_data m name)) \<le> offset" and "\<not> io_fault m (OpRead name offset)"
  shows "ReadFull m name offset buf = (0, (if length buf = 0 then ReadNil else ReadEOF), buf)"
proof -
  from assms(1) have "drop (nat offset) (file_data m name) = []" by simp
  with assms(2) show ?thesis by (simp add: ReadFull_def)
qed

lemma ReadFull_partial:
  assumes "0 \<le> offset" and "offset < int (length (file_data m name))"
    and "int (length (file_data m name)) < offset + int (length buf)"
  shows "fst (snd (ReadFull m name offset buf)) \<in> {ReadUnexpectedEOF, ReadFault}"
proof -
  let ?avail = "drop (nat offset) (file_data m name)"
  from assms have "0 < length ?avail" and "length ?avail < length buf" by auto
  then show ?thesis by (auto simp: ReadFull_def Let_def)
qed

lemma go_int64_id:
  assumes "0 \<le> x" and "x < 2 ^ 63"
  shows "go_int64 x = x"
  unfolding go_int64_def using assms by (intro signed_take_bit_int_eq_self) simp_all

lemma file_Read_at_EOF:
  assumes nf: "\<forall>op. \<not> io_fault m op"
    and eof: "int (length (file_data m (File block))) \<le> go_int64 (BlockNumber block * blockSize m)"
  shows "map_sum id snd (file_Read g m block page) = Inr page"
proof -
  from nf obtain m1 where gf: "getFile m (File block) = Inr m1"
    using getFile_no_fault[of m "File block"] by auto
  note k = getFile_keeps[OF gf]
  let ?off = "go_int64 (BlockNumber block * blockSize m)"
  from eof have off: "0 \<le> ?off" by (smt (verit) of_nat_0_le_iff)
  from nf eof k have "ReadFull m1 (File block) ?off page
      = (0, (if length page = 0 then ReadNil else ReadEOF), page)"
    by (intro ReadFull_at_EOF) auto
  with gf nf k off show ?thesis
    by (simp add: file_Read_def Let_def)
qed

text \<open>
  C8. A read of a block whose offset in bytes, the block number times the block size
  as Read computes it in \<^verbatim>\<open>int64\<close>, is not below the file's size returns no error and
  leaves the page as it was, when the operating system reports no failure. For a file
  made of whole blocks these are the blocks whose number is at or beyond the length that
  Length reports, as long as the offset fits in an \<^verbatim>\<open>int64\<close>. A read that reaches the
  end of the file inside the block (some bytes of the block exist, but not all) returns
  an error.
\<close>

theorem Read_beyond_EOF_succeeds_partial_read_fails:
  "((\<forall>op. \<not> io_fault m op)
      \<and> int (length (file_data m (File block))) \<le> go_int64 (BlockNumber block * blockSize m)
      \<longrightarrow> map_sum id snd (file_Read g m block page) = Inr page)
   \<and> ((\<forall>op. \<not> io_fault m op)
      \<and> 0 < blockSize m
      \<and> map_sum id snd (file_Length g m (File block)) = Inr n
      \<and> int (length (file_data m (File block))) = n * blockSize m
      \<and> n \<le> BlockNumber block
      \<and> BlockNumber block * blockSize m < 2 ^ 63
      \<longrightarrow> map_sum id snd (file_Read g m block page) = Inr page)
   \<and> (0 \<le> go_int64 (BlockNumber block * blockSize m)
      \<and> go_int64 (BlockNumber block * blockSize m) < int (length (file_data m (File block)))
      \<and> int (length (file_data m (File block)))
           < go_int64 (BlockNumber block * blockSize m) + int (length page)
      \<longrightarrow> isl (file_Read g m block page))"
proof (intro conjI impI)
  assume "(\<forall>op. \<not> io_fault m op)
      \<and> int (length (file_data m (File block))) \<le> go_int64 (BlockNumber block * blockSize m)"
  then show "map_sum id snd (file_Read g m block page) = Inr page"
    by (intro file_Read_at_EOF) simp_all
next
  assume a: "(\<forall>op. \<not> io_fault m op)
      \<and> 0 < blockSize m
      \<and> map_sum id snd (file_Length g m (File block)) = Inr n
      \<and> int (length (file_data m (File block))) = n * blockSize m
      \<and> n \<le> BlockNumber block
      \<and> BlockNumber block * blockSize m < 2 ^ 63"
  then have bs: "0 < blockSize m" and sz: "int (length (file_data m (File block))) = n * blockSize m"
    and le: "n \<le> BlockNumber block" and lt: "BlockNumber block * blockSize m < 2 ^ 63"
    by simp_all
  from sz have "0 \<le> n * blockSize m" by (smt (verit) of_nat_0_le_iff)
  with bs have "0 \<le> n" by (simp add: zero_le_mult_iff)
  with le bs have "0 \<le> BlockNumber block * blockSize m" by simp
  from this lt have eq: "go_int64 (BlockNumber block * blockSize m) = BlockNumber block * blockSize m"
    by (rule go_int64_id)
  from le bs have "n * blockSize m \<le> BlockNumber block * blockSize m"
    by (intro mult_right_mono) simp_all
  with sz eq a show "map_sum id snd (file_Read g m block page) = Inr page"
    by (intro file_Read_at_EOF) simp_all
next
  assume a: "0 \<le> go_int64 (BlockNumber block * blockSize m)
      \<and> go_int64 (BlockNumber block * blockSize m) < int (length (file_data m (File block)))
      \<and> int (length (file_data m (File block)))
           < go_int64 (BlockNumber block * blockSize m) + int (length page)"
  let ?off = "go_int64 (BlockNumber block * blockSize m)"
  show "isl (file_Read g m block page)"
  proof (cases "getFile m (File block)")
    case (Inl e)
    then show ?thesis by (simp add: file_Read_def)
  next
    case (Inr m1)
    note k = getFile_keeps[OF Inr]
    obtain n err buf where r: "ReadFull m1 (File block) ?off page = (n, err, buf)"
      by (cases "ReadFull m1 (File block) ?off page") auto
    from a k have "fst (snd (ReadFull m1 (File block) ?off page)) \<in> {ReadUnexpectedEOF, ReadFault}"
      by (intro ReadFull_partial) auto
    with r have "err = ReadUnexpectedEOF \<or> err = ReadFault" by simp
    with Inr r k show ?thesis by (auto simp: file_Read_def Let_def)
  qed
qed

theorem Read_beyond_EOF_succeeds_partial_read_fails_witness:
  "map_sum id snd
     (file_Read GOAMD64 \<lparr>blockSize = 4, openFiles = {}, blocksRead = 0, blocksWritten = 0,
                 disk = [''f'' \<mapsto> [1, 2, 3, 4, 5, 6]], io_fault = (\<lambda>_. False)\<rparr>
        \<lparr>File = ''f'', BlockNumber = 2\<rparr> [9, 9, 9, 9]) = Inr [9, 9, 9, 9]
   \<and> map_sum id snd
     (file_Length GO386 \<lparr>blockSize = 4, openFiles = {}, blocksRead = 0, blocksWritten = 0,
                 disk = [''f'' \<mapsto> [1, 2, 3, 4, 5, 6, 7, 8]], io_fault = (\<lambda>_. False)\<rparr> ''f'')
       = Inr 2
   \<and> map_sum id snd
     (file_Read GO386 \<lparr>blockSize = 4, openFiles = {}, blocksRead = 0, blocksWritten = 0,
                 disk = [''f'' \<mapsto> [1, 2, 3, 4, 5, 6, 7, 8]], io_fault = (\<lambda>_. False)\<rparr>
        \<lparr>File = ''f'', BlockNumber = 2\<rparr> [9, 9, 9, 9]) = Inr [9, 9, 9, 9]
   \<and> isl (file_Read GOAMD64 \<lparr>blockSize = 4, openFiles = {}, blocksRead = 0, blocksWritten = 0,
                 disk = [''f'' \<mapsto> [1, 2, 3, 4, 5, 6]], io_fault = (\<lambda>_. False)\<rparr>
        \<lparr>File = ''f'', BlockNumber = 1\<rparr> [9, 9, 9, 9])"
proof -
  let ?m = "\<lparr>blockSize = 4, openFiles = {}, blocksRead = 0, blocksWritten = 0,
             disk = [''f'' \<mapsto> [1, 2, 3, 4, 5, 6 :: byte]], io_fault = (\<lambda>_. False)\<rparr>"
  let ?m8 = "\<lparr>blockSize = 4, openFiles = {}, blocksRead = 0, blocksWritten = 0,
             disk = [''f'' \<mapsto> [1, 2, 3, 4, 5, 6, 7, 8 :: byte]], io_fault = (\<lambda>_. False)\<rparr>"
  let ?b1 = "\<lparr>File = ''f'', BlockNumber = 1\<rparr>"
  let ?b2 = "\<lparr>File = ''f'', BlockNumber = 2\<rparr>"
  have o1: "go_int64 4 = 4" and o2: "go_int64 8 = 8"
    by (simp_all add: go_int64_id)
  have h1: "(\<forall>op. \<not> io_fault ?m op)
      \<and> int (length (file_data ?m (File ?b2))) \<le> go_int64 (BlockNumber ?b2 * blockSize ?m)"
    by (simp add: file_data_def o2)
  have len: "map_sum id snd (file_Length GO386 ?m8 ''f'') = Inr 2"
    by (simp add: file_Length_def getFile_def file_data_def go_div_def go_int_id)
  have h2: "(\<forall>op. \<not> io_fault ?m8 op)
      \<and> 0 < blockSize ?m8
      \<and> map_sum id snd (file_Length GO386 ?m8 (File ?b2)) = Inr 2
      \<and> int (length (file_data ?m8 (File ?b2))) = 2 * blockSize ?m8
      \<and> 2 \<le> BlockNumber ?b2
      \<and> BlockNumber ?b2 * blockSize ?m8 < 2 ^ 63"
    using len by (simp add: file_data_def)
  have h3: "0 \<le> go_int64 (BlockNumber ?b1 * blockSize ?m)
      \<and> go_int64 (BlockNumber ?b1 * blockSize ?m) < int (length (file_data ?m (File ?b1)))
      \<and> int (length (file_data ?m (File ?b1)))
          < go_int64 (BlockNumber ?b1 * blockSize ?m) + int (length [9, 9, 9, 9 :: byte])"
    by (simp add: file_data_def o1)
  from Read_beyond_EOF_succeeds_partial_read_fails[where m = ?m and block = ?b2
      and g = GOAMD64 and page = "[9, 9, 9, 9]"] h1
  have a: "map_sum id snd (file_Read GOAMD64 ?m ?b2 [9, 9, 9, 9]) = Inr [9, 9, 9, 9]" by blast
  from Read_beyond_EOF_succeeds_partial_read_fails[where m = ?m8 and block = ?b2
      and g = GO386 and n = 2 and page = "[9, 9, 9, 9]"] h2
  have b: "map_sum id snd (file_Read GO386 ?m8 ?b2 [9, 9, 9, 9]) = Inr [9, 9, 9, 9]" by blast
  from Read_beyond_EOF_succeeds_partial_read_fails[where m = ?m and block = ?b1
      and g = GOAMD64 and page = "[9, 9, 9, 9]"] h3
  have c: "isl (file_Read GOAMD64 ?m ?b1 [9, 9, 9, 9])" by blast
  from a b c len show ?thesis by simp
qed

text \<open>
  A block at the length that Length reports can still hold bytes: in a file of 6 bytes
  read with block size 4, Length is 1, and the read of block 1 obtains 2 of the 4 bytes
  and returns an error.
\<close>

theorem Read_at_Length_of_unaligned_file_fails:
  "map_sum id snd
     (file_Length GOAMD64 \<lparr>blockSize = 4, openFiles = {}, blocksRead = 0, blocksWritten = 0,
                 disk = [''f'' \<mapsto> [1, 2, 3, 4, 5, 6]], io_fault = (\<lambda>_. False)\<rparr> ''f'')
       = Inr 1
   \<and> file_Read GOAMD64 \<lparr>blockSize = 4, openFiles = {}, blocksRead = 0, blocksWritten = 0,
                 disk = [''f'' \<mapsto> [1, 2, 3, 4, 5, 6]], io_fault = (\<lambda>_. False)\<rparr>
        \<lparr>File = ''f'', BlockNumber = 1\<rparr> [9, 9, 9, 9] = Inl CannotReadData"
  by (simp add: file_Length_def file_Read_def getFile_def file_data_def go_div_def go_int_id
      go_int64_id ReadFull_def Let_def)

text \<open>
  The offset is a product in \<^verbatim>\<open>int64\<close> and wraps around: with block size 4 the block
  \<open>2 ^ 62\<close> has the offset 0, and its read returns the first block of the file.
\<close>

lemma Read_offset_wraps_in_int64:
  "file_Read GOAMD64 \<lparr>blockSize = 4, openFiles = {}, blocksRead = 0, blocksWritten = 0,
                 disk = [''f'' \<mapsto> [1, 2, 3, 4]], io_fault = (\<lambda>_. False)\<rparr>
        \<lparr>File = ''f'', BlockNumber = 4611686018427387904\<rparr> [9, 9, 9, 9]
     = Inr (\<lparr>blockSize = 4, openFiles = {''f''}, blocksRead = 1, blocksWritten = 0,
                 disk = [''f'' \<mapsto> [1, 2, 3, 4]], io_fault = (\<lambda>_. False)\<rparr>, [1, 2, 3, 4])"
proof -
  have w: "go_int64 18446744073709551616 = 0"
    by (simp add: go_int64_def signed_take_bit_eq_take_bit_shift take_bit_eq_mod)
  show ?thesis
    by (simp add: file_Read_def getFile_def file_data_def ReadFull_def Let_def w go_int_id)
qed

section \<open>Big-endian integers\<close>

lemma length_be_bytes [simp]: "length (be_bytes k n) = k"
  by (induction k arbitrary: n) auto

lemma be_value_snoc: "be_value (bs @ [b]) = be_value bs * 256 + uint b"
  by (simp add: be_value_def)

lemma be_value_be_bytes: "be_value (be_bytes k n) = n mod 256 ^ k"
proof (induction k arbitrary: n)
  case 0
  then show ?case by (simp add: be_value_def)
next
  case (Suc k)
  have "uint (word_of_int n :: byte) = n mod 256"
    by (simp add: uint_word_of_int take_bit_eq_mod)
  with Suc.IH[of "n div 256"] have
    "be_value (be_bytes (Suc k) n) = (n div 256 mod 256 ^ k) * 256 + n mod 256"
    by (simp add: be_value_snoc)
  also have "\<dots> = n mod (256 * 256 ^ k)"
    using zmod_zmult2_eq[of "256 ^ k" n 256] by (simp add: algebra_simps)
  finally show ?case by simp
qed

lemma go_int_32:
  assumes "IntSize g = 4" and "- (2 ^ 31) \<le> n" and "n < 2 ^ 31"
  shows "go_int g (n mod 256 ^ 4) = n"
proof -
  from assms(1) have bits: "int_bits g = 32"
    by (auto simp: IntSize_def int_bits_def split: if_splits)
  have "signed_take_bit 31 (take_bit 32 n) = signed_take_bit 31 n"
    by (simp add: signed_take_bit_take_bit)
  then have "signed_take_bit 31 (n mod 256 ^ 4) = signed_take_bit 31 n"
    by (simp add: take_bit_eq_mod)
  also have "\<dots> = n" using assms(2,3) by (simp add: signed_take_bit_int_eq_self)
  finally show ?thesis by (simp add: go_int_def bits)
qed

text \<open>MaxLength is computed in \<^verbatim>\<open>int\<close>: on 386 it wraps around from \<open>2 ^ 29\<close> bytes on.\<close>

lemma MaxLength_wraps_on_386: "MaxLength GO386 536870912 = - 2147483644"
  by (simp add: MaxLength_def IntSize_def go_int_def int_bits_def
      signed_take_bit_eq_take_bit_shift take_bit_eq_mod)

section \<open>The Start record\<close>

text \<open>
  Where \<open>IntSize\<close> is 4 (386 and arm) the literal offset 4 of WriteStartToLog is the
  offset at which NewStartRecord reads, and the record is decoded to the transaction
  number that was written.
\<close>

lemma StartRecord_bytes_32:
  assumes "IntSize g = 4"
  shows "StartRecord_bytes g t = Inr (be_bytes 4 1 @ be_bytes 4 t)"
  using assms
  by (simp add: StartRecord_bytes_def SetInt_def copy_at_def type_code_def numeral_eq_Suc)

lemma StartRecord_roundtrip_32:
  assumes g: "IntSize g = 4" and t: "- (2 ^ 31) \<le> t" "t < 2 ^ 31"
  shows "CreateLogRecord g (be_bytes 4 1 @ be_bytes 4 t) = Inr (StartRecord t)"
proof -
  have tag: "GetInt g (be_bytes 4 1 @ be_bytes 4 t) 0 = Inr 1"
    using go_int_32[OF g, of 1] by (simp add: GetInt_def g be_value_be_bytes)
  have num: "GetInt g (be_bytes 4 1 @ be_bytes 4 t) 4 = Inr t"
    using go_int_32[OF g t] by (simp add: GetInt_def g be_value_be_bytes)
  from tag num show ?thesis
    by (simp add: CreateLogRecord_def FromCode_def NewStartRecord_def g)
qed

text \<open>
  C3. The Start record that WriteStartToLog builds for transaction t is the tag 1
  followed by t, and decoding it gives a Start record with TxNumber t. On amd64, where
  \<open>IntSize\<close> is 8, the code does otherwise for t = 1: the transaction number is
  written at offset 4 over the low half of the 8-byte tag, the tag reads 0, and the
  record is decoded as a Checkpoint record, whose TxNumber is - 1.
\<close>

theorem StartRecord_amd64_decodes_as_Checkpoint:
  "StartRecord_bytes GOAMD64 1 = Inr [0, 0, 0, 0, 0, 0, 0, 0, 0, 0, 0, 1, 0, 0, 0, 0]
   \<and> CreateLogRecord GOAMD64 [0, 0, 0, 0, 0, 0, 0, 0, 0, 0, 0, 1, 0, 0, 0, 0] = Inr CheckpointRecord
   \<and> TxNumber CheckpointRecord = - 1"
  by code_simp

section \<open>The log where IntSize is 4\<close>

text \<open>
  On 386 and arm the literal 4 of Append and of the iterator is the size of the stored
  length, and the log behaves as the specification says: Append keeps the layout of the
  blocks, and an iterator yields the appended records, newest first. The lemmas of this
  section are the ground under the claims C1 and C2 on those architectures. Block sizes
  and numbers of blocks are below \<open>2 ^ 31\<close> there, so that no position, block number or
  file offset wraps around.
\<close>

lemma length_enc [simp]: "length (enc r) = 4 + length r"
  by (simp add: enc_def)

lemma block_image_Nil [simp]: "block_image [] = []"
  by (simp add: block_image_def)

lemma block_image_snoc [simp]: "block_image (rs @ [r]) = enc r @ block_image rs"
  by (simp add: block_image_def)

lemma GetInt_at:
  assumes g: "IntSize g = 4" and p: "0 \<le> p"
    and d: "drop (nat p) page = be_bytes 4 n @ rest"
    and n: "- (2 ^ 31) \<le> n" "n < 2 ^ 31"
  shows "GetInt g page p = Inr n"
proof -
  from d have "length (drop (nat p) page) = 4 + length rest" by simp
  then have len: "p + 4 \<le> int (length page)" using p by simp
  from d have "take 4 (drop (nat p) page) = be_bytes 4 n" by simp
  with len p g go_int_32[OF g n] show ?thesis
    by (simp add: GetInt_def be_value_be_bytes)
qed

lemma GetBytes_at:
  assumes g: "IntSize g = 4" and p: "0 \<le> p"
    and d: "drop (nat p) page = enc r @ rest"
    and r: "length r < 2 ^ 31"
  shows "GetBytes g page p = Inr r"
proof -
  from d have d': "drop (nat p) page = be_bytes 4 (int (length r)) @ (r @ rest)"
    by (simp add: enc_def)
  from r have "int (length r) < 2 ^ 31" by simp
  with GetInt_at[OF g p d'] have gi: "GetInt g page p = Inr (int (length r))" by simp
  from d have "length (drop (nat p) page) = 4 + length r + length rest" by simp
  then have len: "p + 4 + int (length r) \<le> int (length page)" using p by simp
  have "drop (nat (p + 4)) page = drop 4 (drop (nat p) page)"
    using p by (simp add: nat_add_distrib add.commute)
  also have "\<dots> = r @ rest" using d by (simp add: enc_def)
  finally have "take (length r) (drop (nat (p + 4)) page) = r" by simp
  with gi len g show ?thesis by (simp add: GetBytes_def Let_def)
qed

lemma SetInt_at:
  assumes g: "IntSize g = 4" and p: "0 \<le> p" "p + 4 \<le> int (length page)"
  shows "SetInt g page p n = Inr (take (nat p) page @ be_bytes 4 n @ drop (nat p + 4) page)"
  using assms by (simp add: SetInt_def copy_at_def)

lemma SetBytes_at:
  assumes g: "IntSize g = 4" and p: "0 \<le> p" "p + 4 + int (length r) \<le> int (length page)"
  shows "SetBytes g page p r = Inr (take (nat p) page @ enc r @ drop (nat p + 4 + length r) page)"
proof -
  from p have "p + 4 \<le> int (length page)" by simp
  from SetInt_at[OF g p(1) this] have
    si: "SetInt g page p (int (length r))
          = Inr (take (nat p) page @ be_bytes 4 (int (length r)) @ drop (nat p + 4) page)" .
  let ?q = "take (nat p) page @ be_bytes 4 (int (length r)) @ drop (nat p + 4) page"
  from p have np: "nat p + 4 + length r \<le> length page" by linarith
  then have lq: "length ?q = length page" by simp
  have "copy_at ?q (nat (p + 4)) r = take (nat p) page @ enc r @ drop (nat p + 4 + length r) page"
  proof -
    have n4: "nat (p + 4) = nat p + 4" using p by simp
    have t: "take (nat p + 4) ?q = take (nat p) page @ be_bytes 4 (int (length r))"
      using np by simp
    have dq: "drop (nat p + 4 + length r) ?q = drop (nat p + 4 + length r) page"
      using np by (simp add: add_ac)
    show ?thesis
      unfolding copy_at_def n4 t dq lq using np by (simp add: enc_def add_ac)
  qed
  with si g show ?thesis by (simp add: SetBytes_def)
qed


lemma getFile_ok:
  assumes "\<forall>op. \<not> io_fault m op"
  obtains m1 where "getFile m name = Inr m1" and "blockSize m1 = blockSize m"
    and "io_fault m1 = io_fault m" and "\<And>n. file_data m1 n = file_data m n"
proof -
  from assms obtain m1 where g: "getFile m name = Inr m1"
    using getFile_no_fault[of m name] by auto
  from getFile_keeps[OF g] g that show ?thesis by blast
qed

lemma file_Write_ok:
  assumes nf: "\<forall>op. \<not> io_fault m op" and off: "0 \<le> BlockNumber block * blockSize m"
    and lt: "BlockNumber block * blockSize m < 2 ^ 63"
  obtains m' where "file_Write g m block page = Inr m'" and "blockSize m' = blockSize m"
    and "io_fault m' = io_fault m"
    and "file_data m' (File block)
          = write_at (file_data m (File block)) (nat (BlockNumber block * blockSize m)) page"
    and "\<And>n. n \<noteq> File block \<Longrightarrow> file_data m' n = file_data m n"
proof -
  obtain m1 where gf: "getFile m (File block) = Inr m1" and k: "blockSize m1 = blockSize m"
    "io_fault m1 = io_fault m" "\<And>n. file_data m1 n = file_data m n"
    using getFile_ok[OF nf] by blast
  let ?m' = "m1\<lparr>disk := (disk m1)(File block \<mapsto>
               write_at (file_data m1 (File block)) (nat (BlockNumber block * blockSize m1)) page),
             blocksWritten := go_int g (blocksWritten m1 + 1)\<rparr>"
  from gf k nf off have w: "file_Write g m block page = Inr ?m'"
    by (simp add: file_Write_def Let_def go_int64_id[OF off lt])
  show ?thesis
  proof (rule that[OF w])
    show "blockSize ?m' = blockSize m" using k by simp
    show "io_fault ?m' = io_fault m" using k by simp
    show "file_data ?m' (File block)
          = write_at (file_data m (File block)) (nat (BlockNumber block * blockSize m)) page"
      using k by (simp add: file_data_def)
    show "\<And>n. n \<noteq> File block \<Longrightarrow> file_data ?m' n = file_data m n"
      using k(3) by (simp add: file_data_def)
  qed
qed

lemma go_div_pos: "0 \<le> a \<Longrightarrow> 0 < b \<Longrightarrow> go_div a b = Inr (a div b)"
  by (cases "a = 0") (auto simp: go_div_def sgn_if)

lemma file_Length_ok:
  assumes nf: "\<forall>op. \<not> io_fault m op" and bs: "0 < blockSize m"
    and small: "int (length (file_data m name)) div blockSize m < 2 ^ 31"
  obtains m' where "file_Length g m name = Inr (m', int (length (file_data m name)) div blockSize m)"
    and "blockSize m' = blockSize m" and "io_fault m' = io_fault m"
    and "\<And>n. file_data m' n = file_data m n"
proof -
  obtain m1 where gf: "getFile m name = Inr m1" and k: "blockSize m1 = blockSize m"
    "io_fault m1 = io_fault m" "\<And>n. file_data m1 n = file_data m n"
    using getFile_ok[OF nf] by blast
  from bs have "0 \<le> int (length (file_data m name)) div blockSize m"
    by (simp add: pos_imp_zdiv_nonneg_iff)
  from go_int_id[OF this small]
  have "go_int g (int (length (file_data m name)) div blockSize m)
          = int (length (file_data m name)) div blockSize m" .
  with gf k nf bs
  have "file_Length g m name = Inr (m1, int (length (file_data m name)) div blockSize m)"
    by (simp add: file_Length_def go_div_pos)
  with k that show ?thesis by blast
qed

lemma file_Append_ok:
  assumes nf: "\<forall>op. \<not> io_fault m op" and bs: "0 < blockSize m"
    and len: "int (length (file_data m name)) = n * blockSize m"
    and small: "n < 2 ^ 31" and lt: "n * blockSize m < 2 ^ 63"
  obtains m' where "file_Append g m name = Inr (m', \<lparr>File = name, BlockNumber = n\<rparr>)"
    and "blockSize m' = blockSize m" and "io_fault m' = io_fault m"
    and "file_data m' name = file_data m name @ replicate (nat (blockSize m)) 0"
    and "\<And>k. k \<noteq> name \<Longrightarrow> file_data m' k = file_data m k"
proof -
  from len bs have n0: "0 \<le> n"
    by (metis of_nat_0_le_iff zero_le_mult_iff not_less)
  from len bs have d: "int (length (file_data m name)) div blockSize m = n" by simp
  with small have small': "int (length (file_data m name)) div blockSize m < 2 ^ 31" by simp
  obtain m1 where l: "file_Length g m name = Inr (m1, int (length (file_data m name)) div blockSize m)"
    and k: "blockSize m1 = blockSize m" "io_fault m1 = io_fault m"
    "\<And>n. file_data m1 n = file_data m n"
    using file_Length_ok[OF nf bs small'] by blast
  let ?m' = "m1\<lparr>disk := (disk m1)(name \<mapsto>
                write_at (file_data m1 name) (nat (n * blockSize m1))
                  (replicate (nat (blockSize m1)) 0)),
              blocksWritten := go_int g (blocksWritten m1 + 1)\<rparr>"
  from n0 bs have off: "0 \<le> n * blockSize m" by simp
  from l d k nf bs off
  have a: "file_Append g m name = Inr (?m', \<lparr>File = name, BlockNumber = n\<rparr>)"
    by (simp add: file_Append_def Let_def go_int64_id[OF off lt])
  have w: "write_at (file_data m name) (nat (n * blockSize m)) (replicate (nat (blockSize m)) 0)
            = file_data m name @ replicate (nat (blockSize m)) 0"
  proof -
    from len off have "nat (n * blockSize m) = length (file_data m name)" by simp
    then show ?thesis by (simp add: write_at_def)
  qed
  show ?thesis
  proof (rule that[OF a])
    show "blockSize ?m' = blockSize m" using k by simp
    show "io_fault ?m' = io_fault m" using k by simp
    show "file_data ?m' name = file_data m name @ replicate (nat (blockSize m)) 0"
      using k w by (simp add: file_data_def)
    show "\<And>k. k \<noteq> name \<Longrightarrow> file_data ?m' k = file_data m k"
      using k(3) by (simp add: file_data_def)
  qed
qed

lemma file_Read_ok:
  assumes nf: "\<forall>op. \<not> io_fault m op" and off: "0 \<le> BlockNumber block * blockSize m"
    and lt: "BlockNumber block * blockSize m < 2 ^ 63"
    and len: "nat (BlockNumber block * blockSize m) + length page \<le> length (file_data m (File block))"
  obtains m' where "file_Read g m block page
        = Inr (m', take (length page) (drop (nat (BlockNumber block * blockSize m))
                                         (file_data m (File block))))"
    and "blockSize m' = blockSize m" and "io_fault m' = io_fault m"
    and "\<And>n. file_data m' n = file_data m n"
proof -
  obtain m1 where gf: "getFile m (File block) = Inr m1" and k: "blockSize m1 = blockSize m"
    "io_fault m1 = io_fault m" "\<And>n. file_data m1 n = file_data m n"
    using getFile_ok[OF nf] by blast
  let ?off = "BlockNumber block * blockSize m"
  let ?avail = "drop (nat ?off) (file_data m (File block))"
  from len have la: "length page \<le> length ?avail" by simp
  have rf: "ReadFull m1 (File block) ?off page
      = ((if length page = 0 then 0 else length page), ReadNil,
         (if length page = 0 then page else take (length page) ?avail))"
    using la nf k by (simp add: ReadFull_def Let_def min_def)
  have "file_Read g m block page
        = Inr (m1\<lparr>blocksRead := go_int g (blocksRead m1 + 1)\<rparr>, take (length page) ?avail)"
    using gf k nf off rf by (auto simp: file_Read_def Let_def go_int64_id[OF off lt])
  moreover have "blockSize (m1\<lparr>blocksRead := go_int g (blocksRead m1 + 1)\<rparr>) = blockSize m"
    "io_fault (m1\<lparr>blocksRead := go_int g (blocksRead m1 + 1)\<rparr>) = io_fault m"
    "\<And>n. file_data (m1\<lparr>blocksRead := go_int g (blocksRead m1 + 1)\<rparr>) n = file_data m n"
    using k by (simp_all add: file_data_def)
  ultimately show ?thesis using that by blast
qed

lemma page_holdsD:
  assumes "page_holds g bs page rs"
  shows "int (length page) = bs" and "4 + int (length (block_image rs)) \<le> bs"
    and "GetInt g page 0 = Inr (bs - int (length (block_image rs)))"
    and "drop (nat bs - length (block_image rs)) page = block_image rs"
  using assms by (simp_all add: page_holds_def)

lemma place_record_ok:
  assumes g: "IntSize g = 4" and bs: "bs < 2 ^ 31"
    and ph: "page_holds g bs (logPage m) rs"
    and fit: "4 \<le> bs - int (length (block_image rs)) - (int (length r) + 4)"
  defines "b \<equiv> bs - int (length (block_image rs))"
  defines "p \<equiv> b - (int (length r) + 4)"
  defines "page' \<equiv> be_bytes 4 p @ take (nat p - 4) (drop 4 (logPage m)) @ enc r
                     @ drop (nat b) (logPage m)"
  shows "place_record g m b r
           = Inr (m\<lparr>logPage := page', latestLSN := go_int g (latestLSN m + 1)\<rparr>,
                  go_int g (latestLSN m + 1))"
    and "page_holds g bs page' (rs @ [r])"
    and "go_int g (int (length r) + 4) = int (length r) + 4"
    and "go_int g (b - (int (length r) + 4)) = p"
proof -
  note h = page_holdsD[OF ph]
  let ?page = "logPage m"
  have p4: "4 \<le> p" using fit by (simp add: p_def b_def)
  have pb: "p + 4 + int (length r) = b" by (simp add: p_def)
  have bb: "b \<le> bs" by (simp add: b_def)
  show gn: "go_int g (int (length r) + 4) = int (length r) + 4"
    using p4 pb bb bs by (intro go_int_id) simp_all
  show gp: "go_int g (b - (int (length r) + 4)) = p"
    unfolding p_def[symmetric] using p4 pb bb bs by (intro go_int_id) simp_all
  have nb: "nat b = nat bs - length (block_image rs)" using h(2) by (simp add: b_def)
  have lp: "length ?page = nat bs" using h(1) by simp
  have sb: "SetBytes g ?page p r
              = Inr (take (nat p) ?page @ enc r @ drop (nat b) ?page)"
  proof -
    have "p + 4 + int (length r) \<le> int (length ?page)" using pb bb h(1) by simp
    from SetBytes_at[OF g _ this] p4
    have "SetBytes g ?page p r
            = Inr (take (nat p) ?page @ enc r @ drop (nat p + 4 + length r) ?page)" by simp
    moreover have "nat p + 4 + length r = nat b" using pb p4 by linarith
    ultimately show ?thesis by simp
  qed
  let ?page3 = "take (nat p) ?page @ enc r @ drop (nat b) ?page"
  have l3: "length ?page3 = nat bs"
    using lp p4 pb bb by (simp add: min_def; linarith)
  have si: "SetInt g ?page3 0 p = Inr page'"
  proof -
    have "0 + 4 \<le> int (length ?page3)" using l3 p4 pb bb by linarith
    from SetInt_at[OF g _ this, of p]
    have "SetInt g ?page3 0 p = Inr (be_bytes 4 p @ drop 4 ?page3)" by simp
    moreover have "drop 4 ?page3 = take (nat p - 4) (drop 4 ?page) @ enc r @ drop (nat b) ?page"
    proof -
      have "4 \<le> length (take (nat p) ?page)" using lp p4 pb bb by (simp; linarith)
      then show ?thesis by (simp add: drop_take)
    qed
    ultimately show ?thesis by (simp add: page'_def)
  qed
  from sb si show "place_record g m b r
           = Inr (m\<lparr>logPage := page', latestLSN := go_int g (latestLSN m + 1)\<rparr>,
                  go_int g (latestLSN m + 1))"
    unfolding place_record_def Let_def gn gp by simp
  show "page_holds g bs page' (rs @ [r])"
  proof -
    have len: "int (length page') = bs"
      using lp p4 pb bb by (simp add: page'_def; linarith)
    have im: "int (length (block_image (rs @ [r]))) = bs - p"
      using pb by (simp add: b_def)
    have "GetInt g page' 0 = Inr p"
    proof (rule GetInt_at[OF g])
      show "drop (nat 0) page' = be_bytes 4 p @ (take (nat p - 4) (drop 4 ?page) @ enc r
                     @ drop (nat b) ?page)" by (simp add: page'_def)
      show "- (2 ^ 31) \<le> p" using p4 by simp
      show "p < 2 ^ 31" using pb bb bs by simp
    qed simp
    moreover have "drop (nat p) page' = enc r @ block_image rs"
    proof -
      have "length (be_bytes 4 p @ take (nat p - 4) (drop 4 ?page)) = nat p"
        using lp p4 pb bb by (simp; linarith)
      then have "drop (nat p) page' = enc r @ drop (nat b) ?page"
        by (simp add: page'_def)
      with h(4) nb show ?thesis by simp
    qed
    moreover have "nat bs - length (block_image (rs @ [r])) = nat p"
      using im p4 by linarith
    ultimately show ?thesis
      using len im p4 by (simp add: page_holds_def)
  qed
qed

text \<open>Append where the record stays in the block: where it is placed.\<close>

lemma Append_in_block:
  assumes g: "IntSize g = 4" and bs: "bs < 2 ^ 31"
    and ph: "page_holds g bs (logPage m) rs"
    and fit: "4 \<le> bs - int (length (block_image rs)) - (int (length r) + 4)"
  defines "b \<equiv> bs - int (length (block_image rs))"
  defines "p \<equiv> b - (int (length r) + 4)"
  defines "page' \<equiv> be_bytes 4 p @ take (nat p - 4) (drop 4 (logPage m)) @ enc r
                     @ drop (nat b) (logPage m)"
  shows "log_Append g m r
           = Inr (m\<lparr>logPage := page', latestLSN := go_int g (latestLSN m + 1)\<rparr>,
                  go_int g (latestLSN m + 1))"
proof -
  from page_holdsD(3)[OF ph] have gi: "GetInt g (logPage m) 0 = Inr b" by (simp add: b_def)
  note pr = place_record_ok[OF g bs ph fit]
  have gn: "go_int g (int (length r) + 4) = int (length r) + 4" by (rule pr(3))
  have gp: "go_int g (b - (int (length r) + 4)) = p"
    unfolding b_def p_def by (rule pr(4))
  have p4: "\<not> p < 4" using fit by (simp add: p_def b_def)
  have "place_record g m b r
           = Inr (m\<lparr>logPage := page', latestLSN := go_int g (latestLSN m + 1)\<rparr>,
                  go_int g (latestLSN m + 1))"
    unfolding b_def page'_def p_def by (rule pr(1))
  then show ?thesis
    unfolding log_Append_def Let_def gi sum.case gn gp using p4 by simp
qed

lemma log_layoutD:
  assumes "log_layout g bs m rss"
  shows "rss \<noteq> []" and "blockSize (fileManager m) = bs"
    and "\<forall>op. \<not> io_fault (fileManager m) op"
    and "currentBlock m = \<lparr>File = logFile m, BlockNumber = int (length rss) - 1\<rparr>"
    and "length (file_data (fileManager m) (logFile m)) = length rss * nat bs"
    and "\<And>i. Suc i < length rss \<Longrightarrow>
            page_holds g bs (disk_page bs (file_data (fileManager m) (logFile m)) i) (rss ! i)"
    and "page_holds g bs (logPage m) (last rss)"
    and "1 < length rss \<Longrightarrow> [] \<notin> set rss"
    and "bs < 2 ^ 31" and "int (length rss) < 2 ^ 31"
  using assms by (simp_all add: log_layout_def)

lemma block_offset_small:
  assumes "0 \<le> a" and "a < 2 ^ 31" and "0 \<le> b" and "b < 2 ^ 31"
  shows "a * b < (2::int) ^ 63"
proof -
  from assms have "a * b \<le> 2 ^ 31 * 2 ^ 31" by (intro mult_mono) simp_all
  also have "\<dots> < (2::int) ^ 63" by simp
  finally show ?thesis .
qed

lemma disk_page_append:
  "Suc i * nat bs \<le> length d \<Longrightarrow> disk_page bs (d @ e) i = disk_page bs d i"
  by (simp add: disk_page_def)

lemma disk_page_take:
  "Suc i * nat bs \<le> k \<Longrightarrow> disk_page bs (take k d) i = disk_page bs d i"
proof -
  assume a: "Suc i * nat bs \<le> k"
  have "take (nat bs) (drop (i * nat bs) (take k d)) = take (nat bs) (take (k - i * nat bs) (drop (i * nat bs) d))"
    by (simp add: drop_take)
  also have "\<dots> = take (nat bs) (drop (i * nat bs) d)"
  proof -
    from a have "nat bs \<le> k - i * nat bs" by simp
    then show ?thesis by (simp add: min_absorb1)
  qed
  finally show ?thesis by (simp add: disk_page_def)
qed

lemma disk_page_last:
  "length d = i * nat bs \<Longrightarrow> length pg = nat bs \<Longrightarrow> disk_page bs (d @ pg) i = pg"
  by (simp add: disk_page_def)

lemma mult_Suc_le: "Suc i < n \<Longrightarrow> Suc i * c \<le> (n - 1) * (c::nat)"
  by (rule mult_le_mono1) simp

lemma write_at_last_block:
  assumes "length d = n * c" and "length pg = c" and "0 < n"
  shows "write_at d ((n - 1) * c) pg = take ((n - 1) * c) d @ pg"
proof -
  have "(n - 1) * c + c = n * c" using assms(3)
    by (metis Suc_pred' add.commute mult_Suc)
  with assms show ?thesis by (simp add: write_at_def)
qed

lemma write_at_end:
  assumes "length d = k"
  shows "write_at d k pg = d @ pg"
  using assms by (simp add: write_at_def)

lemma log_flush_layout:
  assumes bs: "0 < bs" and inv: "log_layout g bs m rss"
  obtains m' where "log_flush g m = Inr m'" and "log_layout g bs m' rss"
    and "logPage m' = logPage m" and "logFile m' = logFile m"
    and "latestLSN m' = latestLSN m" and "currentBlock m' = currentBlock m"
    and "file_data (fileManager m') (logFile m)
          = take ((length rss - 1) * nat bs) (file_data (fileManager m) (logFile m)) @ logPage m"
proof -
  note h = log_layoutD[OF inv]
  let ?fm = "fileManager m" and ?lf = "logFile m" and ?n = "length rss"
  let ?d = "file_data ?fm ?lf"
  have n0: "0 < ?n" using h(1) by simp
  have off: "BlockNumber (currentBlock m) * blockSize ?fm = int ((?n - 1) * nat bs)"
  proof -
    have "int ((?n - 1) * nat bs) = int (?n - 1) * int (nat bs)" by simp
    also have "\<dots> = (int ?n - 1) * bs"
    proof -
      have "int (?n - 1) = int ?n - 1" using n0 by linarith
      moreover have "int (nat bs) = bs" using bs by simp
      ultimately show ?thesis by simp
    qed
    finally show ?thesis using h(2,4) by simp
  qed
  then have off0: "0 \<le> BlockNumber (currentBlock m) * blockSize ?fm" by simp
  have offlt: "BlockNumber (currentBlock m) * blockSize ?fm < 2 ^ 63"
  proof -
    have "(int ?n - 1) * bs < 2 ^ 63"
      using n0 h(9,10) bs by (intro block_offset_small) simp_all
    then show ?thesis using h(2,4) by simp
  qed
  have lp: "length (logPage m) = nat bs" using page_holdsD(1)[OF h(7)] by simp
  obtain fm' where w: "file_Write g ?fm (currentBlock m) (logPage m) = Inr fm'"
    and k: "blockSize fm' = blockSize ?fm" "io_fault fm' = io_fault ?fm"
    and d': "file_data fm' (File (currentBlock m))
          = write_at (file_data ?fm (File (currentBlock m)))
              (nat (BlockNumber (currentBlock m) * blockSize ?fm)) (logPage m)"
    using file_Write_ok[OF h(3) off0 offlt, of g "logPage m"] by metis
  have fcb: "File (currentBlock m) = ?lf" using h(4) by simp
  have off_nat: "nat (BlockNumber (currentBlock m) * blockSize ?fm) = (?n - 1) * nat bs"
    by (simp only: off nat_int)
  have d'': "file_data fm' ?lf = take ((?n - 1) * nat bs) ?d @ logPage m"
  proof -
    from d' have "file_data fm' ?lf = write_at ?d ((?n - 1) * nat bs) (logPage m)"
      unfolding fcb off_nat .
    then show ?thesis unfolding write_at_last_block[OF h(5) lp n0] .
  qed
  let ?m' = "m\<lparr>fileManager := fm', lastSavedLSN := latestLSN m\<rparr>"
  have fl: "log_flush g m = Inr ?m'" using w by (simp add: log_flush_def)
  have e: "(?n - 1) * nat bs + nat bs = ?n * nat bs" using n0
    by (metis Suc_pred' add.commute mult_Suc)
  have "(?n - 1) * nat bs \<le> length ?d" unfolding h(5) by (rule mult_le_mono1) simp
  then have lt: "length (take ((?n - 1) * nat bs) ?d) = (?n - 1) * nat bs"
    by (simp only: length_take min_absorb2)
  have ld: "length (file_data fm' ?lf) = ?n * nat bs"
    unfolding d'' by (simp only: length_append lp lt e)
  have pages: "page_holds g bs (disk_page bs (file_data fm' ?lf) i) (rss ! i)"
    if i: "Suc i < length rss" for i
  proof -
    from mult_Suc_le[OF i] have le: "Suc i * nat bs \<le> (?n - 1) * nat bs" .
    then have "Suc i * nat bs \<le> length (take ((?n - 1) * nat bs) ?d)"
      by (simp only: lt)
    then have "disk_page bs (file_data fm' ?lf) i = disk_page bs (take ((?n - 1) * nat bs) ?d) i"
      unfolding d'' by (rule disk_page_append)
    also have "\<dots> = disk_page bs ?d i" using le by (rule disk_page_take)
    finally show ?thesis using h(6)[OF i] by simp
  qed
  have "log_layout g bs ?m' rss"
    unfolding log_layout_def using h(1,2,3,4,7,8,9,10) k ld pages by simp
  with fl d'' that show ?thesis by simp
qed

lemma page_holds_fresh:
  assumes g: "IntSize g = 4" and bs: "4 \<le> bs" "bs < 2 ^ 31" and len: "int (length page) = bs"
  shows "SetInt g page 0 bs = Inr (be_bytes 4 bs @ drop 4 page)"
    and "page_holds g bs (be_bytes 4 bs @ drop 4 page) []"
proof -
  have "0 + 4 \<le> int (length page)" using bs len by simp
  from SetInt_at[OF g _ this, of bs]
  show "SetInt g page 0 bs = Inr (be_bytes 4 bs @ drop 4 page)" by simp
  let ?p1 = "be_bytes 4 bs @ drop 4 page"
  have l1: "int (length ?p1) = bs" using bs len by (simp; linarith)
  have "GetInt g ?p1 0 = Inr bs"
    by (rule GetInt_at[OF g, where rest = "drop 4 page"]) (use bs in simp_all)
  moreover have "drop (nat bs) ?p1 = []" using l1 by simp
  ultimately show "page_holds g bs ?p1 []"
    using l1 bs by (simp add: page_holds_def)
qed

lemma Append_new_block_layout:
  assumes g: "IntSize g = 4" and bs: "8 \<le> bs" "bs < 2 ^ 31"
    and inv: "log_layout g bs m rss"
    and over: "bs - int (length (block_image (last rss))) - (int (length r) + 4) < 4"
    and fits: "int (length r) + 8 \<le> bs"
    and room: "int (length rss) + 1 < 2 ^ 31"
  obtains m' l where "log_Append g m r = Inr (m', l)" and "log_layout g bs m' (rss @ [[r]])"
    and "logFile m' = logFile m"
proof -
  note h = log_layoutD[OF inv]
  let ?lf = "logFile m" and ?n = "length rss" and ?c = "nat bs"
  let ?page = "logPage m"
  have bs0: "0 < bs" using bs by simp
  have n0: "0 < ?n" using h(1) by simp
  have gi: "GetInt g ?page 0 = Inr (bs - int (length (block_image (last rss))))"
    using page_holdsD(3)[OF h(7)] .
  have lpage: "int (length ?page) = bs" using page_holdsD(1)[OF h(7)] .
  obtain m1 where fl: "log_flush g m = Inr m1" and inv1: "log_layout g bs m1 rss"
    and m1: "logPage m1 = ?page" "logFile m1 = ?lf" "latestLSN m1 = latestLSN m"
    and d1: "file_data (fileManager m1) ?lf
              = take ((?n - 1) * ?c) (file_data (fileManager m) ?lf) @ ?page"
    using log_flush_layout[OF bs0 inv] by metis
  note h1 = log_layoutD[OF inv1]
  let ?fm1 = "fileManager m1"
  let ?d1 = "file_data ?fm1 ?lf"
  have ld1: "length ?d1 = ?n * ?c" using h1(5) m1 by simp
  have ic: "int ?c = bs" using bs0 by simp
  have imul: "int (?n * ?c) = int ?n * bs" by (simp only: of_nat_mult ic)
  have ild1: "int (length ?d1) = int ?n * blockSize ?fm1"
    unfolding ld1 imul h1(2) ..
  have bsfm1: "0 < blockSize ?fm1" using h1(2) bs0 by simp
  have nsmall: "int ?n < 2 ^ 31" using room by simp
  have nlt: "int ?n * blockSize ?fm1 < 2 ^ 63"
    unfolding h1(2) using nsmall bs by (intro block_offset_small) simp_all
  obtain fm2 where fa: "file_Append g ?fm1 ?lf = Inr (fm2, \<lparr>File = ?lf, BlockNumber = int ?n\<rparr>)"
    and k2: "blockSize fm2 = blockSize ?fm1" "io_fault fm2 = io_fault ?fm1"
    and d2: "file_data fm2 ?lf = ?d1 @ replicate (nat (blockSize ?fm1)) 0"
    using file_Append_ok[OF h1(3) bsfm1 ild1 nsmall nlt, of g] by metis
  let ?page1 = "be_bytes 4 bs @ drop 4 ?page"
  have bs4: "4 \<le> bs" using bs by simp
  note fresh = page_holds_fresh[OF g bs4 bs(2) lpage]
  have l1: "length ?page1 = ?c" using page_holdsD(1)[OF fresh(2)] by simp
  let ?blk = "\<lparr>File = ?lf, BlockNumber = int ?n\<rparr>"
  have nf2: "\<forall>op. \<not> io_fault fm2 op" using k2 h1(3) by simp
  have bs2: "blockSize fm2 = bs" using k2 h1(2) by simp
  have off2: "BlockNumber ?blk * blockSize fm2 = int (?n * ?c)"
    unfolding imul bs2 by simp
  have off2': "0 \<le> BlockNumber ?blk * blockSize fm2"
    by (simp only: off2 of_nat_0_le_iff)
  have off2lt: "BlockNumber ?blk * blockSize fm2 < 2 ^ 63"
    using nlt k2 by simp
  obtain fm3 where fw: "file_Write g fm2 ?blk ?page1 = Inr fm3"
    and k3: "blockSize fm3 = blockSize fm2" "io_fault fm3 = io_fault fm2"
    and d3: "file_data fm3 (File ?blk)
              = write_at (file_data fm2 (File ?blk)) (nat (BlockNumber ?blk * blockSize fm2)) ?page1"
    using file_Write_ok[OF nf2 off2' off2lt, of g ?page1] by metis
  have off2n: "nat (BlockNumber ?blk * blockSize fm2) = ?n * ?c"
    by (simp only: off2 nat_int)
  have d3': "file_data fm3 ?lf = ?d1 @ ?page1"
  proof -
    have d2': "file_data fm2 ?lf = ?d1 @ replicate ?c 0" using d2 h1(2) by simp
    from d3 have "file_data fm3 ?lf = write_at (file_data fm2 ?lf) (?n * ?c) ?page1"
      unfolding off2n by simp
    then have "file_data fm3 ?lf = write_at (?d1 @ replicate ?c 0) (?n * ?c) ?page1"
      unfolding d2' .
    also have "\<dots> = ?d1 @ ?page1"
      using ld1 l1 by (simp add: write_at_def)
    finally show ?thesis .
  qed
  have anb: "appendNewBlock g ?fm1 ?lf ?page = Inr (fm3, ?page1, ?blk)"
    using fa fresh(1) fw k2 h1(2) by (simp add: appendNewBlock_def)
  have gi1: "GetInt g ?page1 0 = Inr bs" using page_holdsD(3)[OF fresh(2)] by simp
  let ?m2 = "m1\<lparr>fileManager := fm3, logPage := ?page1, currentBlock := ?blk\<rparr>"
  have ph2: "page_holds g bs (logPage ?m2) []" using fresh(2) by simp
  have fit2: "4 \<le> bs - int (length (block_image [])) - (int (length r) + 4)"
    using fits by simp
  note pr = place_record_ok[OF g bs(2) ph2 fit2]
  obtain page' where pr1: "place_record g ?m2 bs r
        = Inr (?m2\<lparr>logPage := page', latestLSN := go_int g (latestLSN ?m2 + 1)\<rparr>,
               go_int g (latestLSN ?m2 + 1))"
    and ph': "page_holds g bs page' [r]"
    using pr by simp
  let ?m' = "?m2\<lparr>logPage := page', latestLSN := go_int g (latestLSN ?m2 + 1)\<rparr>"
  have gov: "go_int g (bs - int (length (block_image (last rss))) - (int (length r) + 4))
               = bs - int (length (block_image (last rss))) - (int (length r) + 4)"
    using page_holdsD(2)[OF h(7)] fits bs by (intro go_int_small) simp_all
  have app: "log_Append g m r = Inr (?m', go_int g (latestLSN ?m2 + 1))"
    using gi over fl anb gi1 pr1 m1 by (simp add: log_Append_def Let_def pr(3) gov)
  have pages: "page_holds g bs (disk_page bs (file_data fm3 ?lf) i) ((rss @ [[r]]) ! i)"
    if i: "Suc i < length (rss @ [[r]])" for i
  proof (cases "Suc i < ?n")
    case True
    then have "Suc i * ?c \<le> ?n * ?c" by (intro mult_le_mono1) simp
    then have "Suc i * ?c \<le> length ?d1" by (simp only: ld1)
    then have "disk_page bs (file_data fm3 ?lf) i = disk_page bs ?d1 i"
      unfolding d3' by (rule disk_page_append)
    moreover have "(rss @ [[r]]) ! i = rss ! i" using True by (simp add: nth_append)
    ultimately show ?thesis using h1(6)[OF True] m1 by simp
  next
    case False
    with i have ie: "i = ?n - 1" by simp
    have e: "(?n - 1) * ?c + ?c = ?n * ?c" using n0
      by (metis Suc_pred' add.commute mult_Suc)
    have "Suc i * ?c \<le> length ?d1" unfolding ld1 ie using n0 by simp
    then have "disk_page bs (file_data fm3 ?lf) i = disk_page bs ?d1 i"
      unfolding d3' by (rule disk_page_append)
    also have "\<dots> = ?page"
    proof -
      have "(?n - 1) * ?c \<le> length (file_data (fileManager m) ?lf)"
        unfolding h(5) by (rule mult_le_mono1) simp
      then have "length (take ((?n - 1) * ?c) (file_data (fileManager m) ?lf)) = i * ?c"
        unfolding ie by (simp only: length_take min_absorb2)
      moreover have "length ?page = ?c" using lpage by simp
      ultimately show ?thesis unfolding d1 by (rule disk_page_last)
    qed
    finally have "disk_page bs (file_data fm3 ?lf) i = ?page" .
    moreover have "(rss @ [[r]]) ! i = last rss"
      using ie n0 h(1) by (simp add: nth_append last_conv_nth)
    ultimately show ?thesis using h(7) by simp
  qed
  have nonempty: "[] \<notin> set rss"
  proof (cases "1 < ?n")
    case True
    then show ?thesis by (rule h(8))
  next
    case False
    with n0 have "?n = 1" by linarith
    then obtain rs0 where rss: "rss = [rs0]" by (cases rss) auto
    have "rs0 \<noteq> []"
    proof
      assume "rs0 = []"
      with over rss fits show False by simp
    qed
    with rss show ?thesis by simp
  qed
  have "log_layout g bs ?m' (rss @ [[r]])"
    unfolding log_layout_def
  proof (intro conjI allI impI)
    show "length (file_data (fileManager ?m') (logFile ?m')) = length (rss @ [[r]]) * ?c"
      using d3' ld1 l1 m1 by simp
    show "page_holds g bs (logPage ?m') (last (rss @ [[r]]))" using ph' by simp
    show "[] \<notin> set (rss @ [[r]])" using nonempty by simp
    show "\<And>i. Suc i < length (rss @ [[r]]) \<Longrightarrow>
        page_holds g bs (disk_page bs (file_data (fileManager ?m') (logFile ?m')) i)
          ((rss @ [[r]]) ! i)"
      using pages m1 by simp
  qed (use k3 k2 h1 m1 room in simp_all)
  with app m1 that show ?thesis by simp
qed

lemma Append_in_block_layout:
  assumes g: "IntSize g = 4" and bs: "bs < 2 ^ 31"
    and inv: "log_layout g bs m rss"
    and fit: "4 \<le> bs - int (length (block_image (last rss))) - (int (length r) + 4)"
  obtains m' l where "log_Append g m r = Inr (m', l)"
    and "log_layout g bs m' (butlast rss @ [last rss @ [r]])"
    and "logFile m' = logFile m"
proof -
  note h = log_layoutD[OF inv]
  note pr = place_record_ok[OF g bs h(7) fit]
  obtain page' where app0: "place_record g m (bs - int (length (block_image (last rss)))) r
        = Inr (m\<lparr>logPage := page', latestLSN := go_int g (latestLSN m + 1)\<rparr>,
               go_int g (latestLSN m + 1))"
    and ph': "page_holds g bs page' (last rss @ [r])"
    using pr by simp
  let ?m' = "m\<lparr>logPage := page', latestLSN := go_int g (latestLSN m + 1)\<rparr>"
  let ?rss' = "butlast rss @ [last rss @ [r]]"
  have app: "log_Append g m r = Inr (?m', go_int g (latestLSN m + 1))"
    using page_holdsD(3)[OF h(7)] fit app0 by (simp add: log_Append_def Let_def pr(3) pr(4))
  have len: "length ?rss' = length rss" using h(1) by simp
  have nth: "?rss' ! i = rss ! i" if "Suc i < length rss" for i
  proof -
    from that have "i < length (butlast rss)" by simp
    then show ?thesis by (simp only: nth_append nth_butlast if_True)
  qed
  have ne: "[] \<notin> set ?rss'" if "1 < length rss"
    using h(8)[OF that] by (auto dest: in_set_butlastD)
  have "log_layout g bs ?m' ?rss'"
    unfolding log_layout_def len
    using h(2,3,4,5,6,9,10) ph' nth ne by simp
  with app that show ?thesis by simp
qed

lemma Append_layout:
  assumes g: "IntSize g = 4" and bs: "8 \<le> bs" "bs < 2 ^ 31"
    and inv: "log_layout g bs m rss"
    and fits: "int (length r) + 8 \<le> bs"
    and room: "int (length rss) + 1 < 2 ^ 31"
  obtains m' l rss' where "log_Append g m r = Inr (m', l)"
    and "log_layout g bs m' rss'" and "concat rss' = concat rss @ [r]"
    and "logFile m' = logFile m" and "length rss' \<le> Suc (length rss)"
proof (cases "4 \<le> bs - int (length (block_image (last rss))) - (int (length r) + 4)")
  case True
  from log_layoutD(1)[OF inv] have "concat rss = concat (butlast rss) @ last rss"
    by (metis append_butlast_last_id concat_append concat.simps(1,2) append_Nil2)
  then have c: "concat (butlast rss @ [last rss @ [r]]) = concat rss @ [r]" by simp
  have l: "length (butlast rss @ [last rss @ [r]]) \<le> Suc (length rss)" by simp
  obtain m' l' where "log_Append g m r = Inr (m', l')"
    and "log_layout g bs m' (butlast rss @ [last rss @ [r]])" and "logFile m' = logFile m"
    using Append_in_block_layout[OF g bs(2) inv True] by metis
  with c l that show ?thesis by blast
next
  case False
  then have over: "bs - int (length (block_image (last rss))) - (int (length r) + 4) < 4"
    by simp
  have c: "concat (rss @ [[r]]) = concat rss @ [r]" by simp
  have l: "length (rss @ [[r]]) \<le> Suc (length rss)" by simp
  obtain m' l' where "log_Append g m r = Inr (m', l')"
    and "log_layout g bs m' (rss @ [[r]])" and "logFile m' = logFile m"
    using Append_new_block_layout[OF g bs inv over fits room] by metis
  with c l that show ?thesis by blast
qed

lemma page_holds_newest:
  assumes "page_holds g bs page (rs @ [r])"
  shows "GetInt g page 0 = Inr (bs - int (length (block_image rs)) - (int (length r) + 4))"
    and "drop (nat (bs - int (length (block_image rs)) - (int (length r) + 4))) page
           = enc r @ block_image rs"
proof -
  note h = page_holdsD[OF assms]
  have im: "int (length (block_image (rs @ [r]))) = int (length (block_image rs)) + (int (length r) + 4)"
    by simp
  show "GetInt g page 0 = Inr (bs - int (length (block_image rs)) - (int (length r) + 4))"
    using h(3) unfolding im by (simp add: algebra_simps)
  have "nat (bs - int (length (block_image rs)) - (int (length r) + 4))
          = nat bs - length (block_image (rs @ [r]))"
    using h(2) unfolding im by (simp; linarith)
  with h(4) show "drop (nat (bs - int (length (block_image rs)) - (int (length r) + 4))) page
           = enc r @ block_image rs" by simp
qed

text \<open>
  Append as the specification has it, where IntSize is 4: with the boundary b of the
  current block and a record of k bytes, a new block is started exactly when
  \<open>b - (k + 4) < 4\<close>; the record, its length first, lies from the new boundary up to the
  old one (up to the end of the page in a new block), and the new boundary is stored.
\<close>

lemma Append_places_record_32:
  assumes g: "IntSize g = 4" and bs: "8 \<le> bs" "bs < 2 ^ 31"
    and inv: "log_layout g bs m rss"
    and fits: "int (length r) + 8 \<le> bs"
    and room: "int (length rss) + 1 < 2 ^ 31"
  defines "b \<equiv> bs - int (length (block_image (last rss)))"
  defines "k \<equiv> int (length r)"
  shows "GetInt g (logPage m) 0 = Inr b"
    and "\<exists>m' l. log_Append g m r = Inr (m', l)
          \<and> (if b - (k + 4) < 4
              then BlockNumber (currentBlock m') = BlockNumber (currentBlock m) + 1
                   \<and> GetInt g (logPage m') 0 = Inr (bs - (k + 4))
                   \<and> drop (nat (bs - (k + 4))) (logPage m') = enc r
              else currentBlock m' = currentBlock m
                   \<and> GetInt g (logPage m') 0 = Inr (b - (k + 4))
                   \<and> drop (nat (b - (k + 4))) (logPage m') = enc r @ drop (nat b) (logPage m))"
proof -
  note h = log_layoutD[OF inv]
  note hp = page_holdsD[OF h(7)]
  show gi: "GetInt g (logPage m) 0 = Inr b" using hp(3) by (simp add: b_def)
  have nb: "nat b = nat bs - length (block_image (last rss))" using hp(2) unfolding b_def by linarith
  show "\<exists>m' l. log_Append g m r = Inr (m', l)
          \<and> (if b - (k + 4) < 4
              then BlockNumber (currentBlock m') = BlockNumber (currentBlock m) + 1
                   \<and> GetInt g (logPage m') 0 = Inr (bs - (k + 4))
                   \<and> drop (nat (bs - (k + 4))) (logPage m') = enc r
              else currentBlock m' = currentBlock m
                   \<and> GetInt g (logPage m') 0 = Inr (b - (k + 4))
                   \<and> drop (nat (b - (k + 4))) (logPage m') = enc r @ drop (nat b) (logPage m))"
  proof (cases "b - (k + 4) < 4")
    case True
    then have over: "bs - int (length (block_image (last rss))) - (int (length r) + 4) < 4"
      by (simp add: b_def k_def)
    obtain m' l where a: "log_Append g m r = Inr (m', l)"
      and inv': "log_layout g bs m' (rss @ [[r]])" and lf: "logFile m' = logFile m"
      using Append_new_block_layout[OF g bs inv over fits room] by metis
    note h' = log_layoutD[OF inv']
    have ph: "page_holds g bs (logPage m') ([] @ [r])" using h'(7) by simp
    note nw = page_holds_newest[OF ph]
    have cb: "BlockNumber (currentBlock m') = BlockNumber (currentBlock m) + 1"
      using h(4) h'(4) by simp
    have p1: "GetInt g (logPage m') 0 = Inr (bs - (k + 4))"
      using nw(1) by (simp add: k_def)
    have p2: "drop (nat (bs - (k + 4))) (logPage m') = enc r"
      using nw(2) by (simp add: k_def)
    from a cb p1 p2 True show ?thesis
      by (intro exI[of _ m'] exI[of _ l]) simp
  next
    case False
    then have fit: "4 \<le> bs - int (length (block_image (last rss))) - (int (length r) + 4)"
      by (simp add: b_def k_def)
    obtain m' l where a: "log_Append g m r = Inr (m', l)"
      and inv': "log_layout g bs m' (butlast rss @ [last rss @ [r]])"
      and lf: "logFile m' = logFile m"
      using Append_in_block_layout[OF g bs(2) inv fit] by metis
    note h' = log_layoutD[OF inv']
    have ph: "page_holds g bs (logPage m') (last rss @ [r])" using h'(7) by simp
    note nw = page_holds_newest[OF ph]
    have cb: "currentBlock m' = currentBlock m"
      using h(1,4) h'(4) lf by simp
    have dr: "drop (nat b) (logPage m) = block_image (last rss)" using hp(4) nb by simp
    have e1: "b - (k + 4) = bs - int (length (block_image (last rss))) - (int (length r) + 4)"
      by (simp add: b_def k_def)
    have p1: "GetInt g (logPage m') 0 = Inr (b - (k + 4))"
      unfolding e1 by (rule nw(1))
    have p2: "drop (nat (b - (k + 4))) (logPage m') = enc r @ drop (nat b) (logPage m)"
      unfolding e1 dr by (rule nw(2))
    from a cb p1 p2 False show ?thesis
      by (intro exI[of _ m'] exI[of _ l]) simp
  qed
qed

lemma Flush_layout:
  assumes bs: "0 < bs" and inv: "log_layout g bs m rss"
  obtains m' where "log_Flush g m l = Inr m'" and "log_layout g bs m' rss"
    and "logFile m' = logFile m"
proof (cases "l \<ge> lastSavedLSN m")
  case True
  with log_flush_layout[OF bs inv] that show ?thesis by (metis log_Flush_def)
next
  case False
  with inv that show ?thesis by (simp add: log_Flush_def)
qed

lemma log_run_layout:
  assumes g: "IntSize g = 4" and bs: "8 \<le> bs" "bs < 2 ^ 31"
  shows "log_layout g bs m rss \<Longrightarrow> \<forall>r \<in> set (appended ops). int (length r) + 8 \<le> bs
     \<Longrightarrow> int (length rss) + int (length (appended ops)) < 2 ^ 31
     \<Longrightarrow> \<exists>m' rss'. log_run g m ops = Inr m' \<and> log_layout g bs m' rss'
            \<and> concat rss' = concat rss @ appended ops \<and> logFile m' = logFile m"
proof (induction ops arbitrary: m rss)
  case Nil
  then show ?case by auto
next
  case (Cons op ops)
  show ?case
  proof (cases op)
    case (DoAppend r)
    with Cons.prems(2) have fr: "int (length r) + 8 \<le> bs"
      and rest: "\<forall>r \<in> set (appended ops). int (length r) + 8 \<le> bs" by simp_all
    from Cons.prems(3) DoAppend have room: "int (length rss) + 1 < 2 ^ 31" by simp
    obtain m1 l rss1 where a: "log_Append g m r = Inr (m1, l)"
      and i1: "log_layout g bs m1 rss1" and c1: "concat rss1 = concat rss @ [r]"
      and f1: "logFile m1 = logFile m" and l1: "length rss1 \<le> Suc (length rss)"
      using Append_layout[OF g bs Cons.prems(1) fr room] by metis
    from Cons.prems(3) DoAppend l1
    have room1: "int (length rss1) + int (length (appended ops)) < 2 ^ 31" by simp
    from Cons.IH[OF i1 rest room1] obtain m' rss' where
      "log_run g m1 ops = Inr m'" "log_layout g bs m' rss'"
      "concat rss' = concat rss1 @ appended ops" "logFile m' = logFile m1" by blast
    with a c1 f1 DoAppend show ?thesis by auto
  next
    case (DoFlush l)
    with Cons.prems(2) have rest: "\<forall>r \<in> set (appended ops). int (length r) + 8 \<le> bs"
      by simp
    have bs0: "0 < bs" using bs by simp
    obtain m1 where a: "log_Flush g m l = Inr m1" and i1: "log_layout g bs m1 rss"
      and f1: "logFile m1 = logFile m"
      using Flush_layout[OF bs0 Cons.prems(1)] by metis
    from Cons.prems(3) DoFlush
    have room1: "int (length rss) + int (length (appended ops)) < 2 ^ 31" by simp
    from Cons.IH[OF i1 rest room1] obtain m' rss' where
      "log_run g m1 ops = Inr m'" "log_layout g bs m' rss'"
      "concat rss' = concat rss @ appended ops" "logFile m' = logFile m1" by blast
    with a f1 DoFlush show ?thesis by auto
  qed
qed

lemma NewManager_layout:
  assumes g: "IntSize g = 4" and bs: "8 \<le> bs" "bs < 2 ^ 31"
    and fm: "blockSize fm = bs" "\<forall>op. \<not> io_fault fm op" "file_data fm lf = []"
  obtains m where "log_NewManager g fm lf = Inr m" and "log_layout g bs m [[]]"
    and "logFile m = lf"
proof -
  let ?c = "nat bs"
  let ?page = "replicate ?c (0::byte)"
  have bs0: "0 < bs" and bs4: "4 \<le> bs" using bs by simp_all
  have np: "NewPage (blockSize fm) = Inr ?page" using fm(1) bs0 by (simp add: NewPage_def)
  have bsf: "0 < blockSize fm" using fm(1) bs0 by simp
  have small0: "int (length (file_data fm lf)) div blockSize fm < 2 ^ 31" using fm(3) by simp
  obtain fm1 where fl: "file_Length g fm lf = Inr (fm1, int (length (file_data fm lf)) div blockSize fm)"
    and k1: "blockSize fm1 = blockSize fm" "io_fault fm1 = io_fault fm"
    "\<And>n. file_data fm1 n = file_data fm n"
    using file_Length_ok[OF fm(2) bsf small0, of g] by metis
  have fl0: "file_Length g fm lf = Inr (fm1, 0)" using fl fm(3) by simp
  have nf1: "\<forall>op. \<not> io_fault fm1 op" using k1 fm(2) by simp
  have bsf1: "0 < blockSize fm1" using k1 bsf by simp
  have len1: "int (length (file_data fm1 lf)) = 0 * blockSize fm1" using k1 fm(3) by simp
  have z31: "(0::int) < 2 ^ 31" and z63: "0 * blockSize fm1 < 2 ^ 63" by simp_all
  obtain fm2 where fa: "file_Append g fm1 lf = Inr (fm2, \<lparr>File = lf, BlockNumber = 0\<rparr>)"
    and k2: "blockSize fm2 = blockSize fm1" "io_fault fm2 = io_fault fm1"
    and d2: "file_data fm2 lf = file_data fm1 lf @ replicate (nat (blockSize fm1)) 0"
    using file_Append_ok[OF nf1 bsf1 len1 z31 z63, of g] by metis
  have lpage: "int (length ?page) = bs" using bs0 by simp
  note fresh = page_holds_fresh[OF g bs4 bs(2) lpage]
  let ?page1 = "be_bytes 4 bs @ drop 4 ?page"
  let ?blk = "\<lparr>File = lf, BlockNumber = 0\<rparr>"
  have nf2: "\<forall>op. \<not> io_fault fm2 op" using k2 nf1 by simp
  have off2: "0 \<le> BlockNumber ?blk * blockSize fm2" by simp
  have off2lt: "BlockNumber ?blk * blockSize fm2 < 2 ^ 63" by simp
  obtain fm3 where fw: "file_Write g fm2 ?blk ?page1 = Inr fm3"
    and k3: "blockSize fm3 = blockSize fm2" "io_fault fm3 = io_fault fm2"
    and d3: "file_data fm3 (File ?blk)
              = write_at (file_data fm2 (File ?blk)) (nat (BlockNumber ?blk * blockSize fm2)) ?page1"
    using file_Write_ok[OF nf2 off2 off2lt, of g ?page1] by metis
  have l1: "length ?page1 = ?c" using page_holdsD(1)[OF fresh(2)] by simp
  have d3': "file_data fm3 lf = ?page1"
  proof -
    have "file_data fm2 lf = replicate ?c 0" using d2 k1 fm by simp
    with d3 have "file_data fm3 lf = write_at (replicate ?c 0) 0 ?page1" by simp
    also have "\<dots> = ?page1" using l1 by (simp add: write_at_def)
    finally show ?thesis .
  qed
  have anb: "appendNewBlock g fm1 lf ?page = Inr (fm3, ?page1, ?blk)"
    using fa fresh(1) fw k2 k1 fm(1) by (simp add: appendNewBlock_def)
  let ?m = "\<lparr>fileManager = fm3, logFile = lf, logPage = ?page1,
              currentBlock = ?blk, latestLSN = 0, lastSavedLSN = 0\<rparr>"
  have nm: "log_NewManager g fm lf = Inr ?m"
    using np fl0 anb by (simp add: log_NewManager_def)
  have "log_layout g bs ?m [[]]"
    unfolding log_layout_def using k3 k2 k1 fm nf2 d3' l1 fresh(2) bs(2) by simp
  with nm that show ?thesis by simp
qed

text \<open>Reading the records that are left in the iterator's block.\<close>

lemma enc_le_block_image:
  "r \<in> set rs \<Longrightarrow> length (enc r) \<le> length (block_image rs)"
proof (induction rs rule: rev_induct)
  case Nil
  then show ?case by simp
next
  case (snoc x xs)
  then show ?case by (cases "r = x") auto
qed

lemma Iterator_all_block:
  assumes g: "IntSize g = 4" and bs: "bs < 2 ^ 31" and fm: "blockSize fm = bs"
  shows "int (length (it_page it)) = bs
     \<Longrightarrow> currentPosition it = bs - int (length (block_image rs))
     \<Longrightarrow> 4 + int (length (block_image rs)) \<le> bs
     \<Longrightarrow> drop (nat (currentPosition it)) (it_page it) = block_image rs
     \<Longrightarrow> Iterator_all g fm it
          = (case Iterator_all g fm (it\<lparr>currentPosition := bs\<rparr>) of
               Inl e \<Rightarrow> Inl e
             | Inr rest \<Rightarrow> Inr (rev rs @ rest))"
proof (induction rs arbitrary: it rule: rev_induct)
  case Nil
  then have "it\<lparr>currentPosition := bs\<rparr> = it" by simp
  then show ?case by (simp split: sum.splits)
next
  case (snoc r rs)
  let ?pos = "currentPosition it"
  have im: "block_image (rs @ [r]) = enc r @ block_image rs" by simp
  have pos: "?pos = bs - (4 + int (length r)) - int (length (block_image rs))"
    using snoc.prems(2) by (simp add: im)
  have pos0: "0 \<le> ?pos" "4 \<le> ?pos" using snoc.prems(3) pos by (simp_all add: im)
  have lt: "?pos < bs" using pos by simp
  have hn: "HasNext fm it" using lt fm by (simp add: HasNext_def)
  have rl: "length r < 2 ^ 31"
  proof -
    have "int (length r) < bs" using snoc.prems(3) by (simp add: im)
    with bs show ?thesis by simp
  qed
  have gb: "GetBytes g (it_page it) ?pos = Inr r"
    using GetBytes_at[OF g pos0(1) _ rl, of "it_page it" "block_image rs"] snoc.prems(4)
    by (simp add: im)
  let ?it1 = "it\<lparr>currentPosition := ?pos + (4 + int (length r))\<rparr>"
  have nx: "Next g fm it = Inr (fm, ?it1, r)"
    using lt fm gb by (simp add: Next_def)
  have p1: "currentPosition ?it1 = bs - int (length (block_image rs))"
    using pos by simp
  have d1: "drop (nat (currentPosition ?it1)) (it_page ?it1) = block_image rs"
  proof -
    have "nat (?pos + (4 + int (length r))) = nat ?pos + length (enc r)"
      using pos0 by (simp add: nat_add_distrib)
    then have "drop (nat (currentPosition ?it1)) (it_page ?it1)
                 = drop (length (enc r)) (drop (nat ?pos) (it_page it))"
      by (simp add: add.commute)
    also have "\<dots> = block_image rs" using snoc.prems(4) by (simp add: im)
    finally show ?thesis .
  qed
  have ih: "Iterator_all g fm ?it1
          = (case Iterator_all g fm (?it1\<lparr>currentPosition := bs\<rparr>) of
               Inl e \<Rightarrow> Inl e
             | Inr rest \<Rightarrow> Inr (rev rs @ rest))"
    using snoc.prems(1,3) p1 d1 by (intro snoc.IH) (simp_all add: im)
  have same: "?it1\<lparr>currentPosition := bs\<rparr> = it\<lparr>currentPosition := bs\<rparr>" by simp
  show ?case
    using hn nx by (subst Iterator_all.simps) (simp add: ih same split: sum.splits)
qed

lemma Iterator_all_blocks:
  assumes g: "IntSize g = 4" and bs: "0 < bs" "bs < 2 ^ 31"
    and len: "length d = n * nat bs" and nr: "n \<le> length rss"
    and pages: "\<And>j. j < n \<Longrightarrow> page_holds g bs (disk_page bs d j) (rss ! j)"
    and nsm: "int n < 2 ^ 31"
  shows "i \<le> n \<Longrightarrow> (\<And>j. j < i \<Longrightarrow> rss ! j \<noteq> [])
     \<Longrightarrow> blockSize fm = bs \<Longrightarrow> \<forall>op. \<not> io_fault fm op \<Longrightarrow> file_data fm lf = d
     \<Longrightarrow> it_block it = \<lparr>File = lf, BlockNumber = int i\<rparr>
     \<Longrightarrow> currentPosition it = bs \<Longrightarrow> int (length (it_page it)) = bs
     \<Longrightarrow> Iterator_all g fm it = Inr (rev (concat (take i rss)))"
proof (induction i arbitrary: fm it)
  case 0
  then have "\<not> HasNext fm it" by (simp add: HasNext_def)
  then show ?case by (subst Iterator_all.simps) simp
next
  case (Suc j)
  let ?c = "nat bs"
  have jn: "j < n" using Suc.prems(1) by simp
  have hn: "HasNext fm it" using Suc.prems(6) by (simp add: HasNext_def)
  let ?blk = "\<lparr>File = lf, BlockNumber = int j\<rparr>"
  have ic: "int ?c = bs" using bs by simp
  have off: "BlockNumber ?blk * blockSize fm = int (j * ?c)"
    unfolding Suc.prems(3) by (simp only: of_nat_mult ic) simp
  have off0: "0 \<le> BlockNumber ?blk * blockSize fm" by (simp only: off of_nat_0_le_iff)
  have jsm: "int j < 2 ^ 31" using jn nsm by simp
  have "int j * bs < 2 ^ 63"
    using jsm bs by (intro block_offset_small) simp_all
  then have offlt: "BlockNumber ?blk * blockSize fm < 2 ^ 63"
    unfolding Suc.prems(3) by simp
  have gj: "go_int g (int j) = int j" using jsm by (intro go_int_id) simp_all
  have offn: "nat (BlockNumber ?blk * blockSize fm) = j * ?c" by (simp only: off nat_int)
  have lp: "length (it_page it) = ?c" using Suc.prems(8) by simp
  have room: "nat (BlockNumber ?blk * blockSize fm) + length (it_page it)
                \<le> length (file_data fm (File ?blk))"
  proof -
    have "j * ?c + ?c = Suc j * ?c" by simp
    also have "\<dots> \<le> n * ?c" using Suc.prems(1) by (intro mult_le_mono1)
    finally show ?thesis unfolding offn lp using Suc.prems(5) len by simp
  qed
  obtain fm1 where rd: "file_Read g fm ?blk (it_page it)
        = Inr (fm1, take (length (it_page it))
                      (drop (nat (BlockNumber ?blk * blockSize fm)) (file_data fm (File ?blk))))"
    and k1: "blockSize fm1 = blockSize fm" "io_fault fm1 = io_fault fm"
    "\<And>n. file_data fm1 n = file_data fm n"
    using file_Read_ok[OF Suc.prems(4) off0 offlt room, of g] by metis
  let ?page1 = "disk_page bs d j"
  have rd': "file_Read g fm ?blk (it_page it) = Inr (fm1, ?page1)"
    using rd unfolding offn lp using Suc.prems(5) by (simp add: disk_page_def)
  note ph = pages[OF jn]
  note h = page_holdsD[OF ph]
  let ?b = "bs - int (length (block_image (rss ! j)))"
  from Suc.prems(2)[of j] obtain rs r where rj: "rss ! j = rs @ [r]"
    by (metis lessI rev_exhaust)
  have im: "block_image (rss ! j) = enc r @ block_image rs" by (simp add: rj)
  let ?it1 = "it\<lparr>it_block := ?blk, it_page := ?page1, boundary := ?b, currentPosition := ?b\<rparr>"
  have mv: "moveToBlock g fm (it\<lparr>it_block := ?blk\<rparr>) ?blk = Inr (fm1, ?it1)"
    using rd' h(3) by (simp add: moveToBlock_def)
  have b0: "0 \<le> ?b" using h(2) by simp
  have rl: "length r < 2 ^ 31"
  proof -
    have "int (length r) < bs" using h(2) by (simp add: im)
    with bs show ?thesis by simp
  qed
  have nb: "nat ?b = nat bs - length (block_image (rss ! j))" using h(2) by linarith
  have gb: "GetBytes g ?page1 ?b = Inr r"
    using GetBytes_at[OF g b0 _ rl, of ?page1 "block_image rs"] h(4) nb
    by (simp add: im)
  let ?it2 = "?it1\<lparr>currentPosition := ?b + (4 + int (length r))\<rparr>"
  have nx: "Next g fm it = Inr (fm1, ?it2, r)"
    using Suc.prems(3,6,7) mv gb by (simp add: Next_def Let_def gj)
  have fm1: "blockSize fm1 = bs" "\<forall>op. \<not> io_fault fm1 op" "file_data fm1 lf = d"
    using k1 Suc.prems(3,4,5) by simp_all
  have p2: "currentPosition ?it2 = bs - int (length (block_image rs))"
    by (simp add: im)
  have d2: "drop (nat (currentPosition ?it2)) (it_page ?it2) = block_image rs"
  proof -
    have "nat (?b + (4 + int (length r))) = nat ?b + length (enc r)"
      using b0 by (simp add: nat_add_distrib)
    then have "drop (nat (currentPosition ?it2)) (it_page ?it2)
                 = drop (length (enc r)) (drop (nat ?b) ?page1)"
      by (simp add: add.commute)
    also have "\<dots> = block_image rs" using h(4) nb by (simp add: im)
    finally show ?thesis .
  qed
  have l2: "int (length (it_page ?it2)) = bs" using h(1) by simp
  have fit2: "4 + int (length (block_image rs)) \<le> bs" using h(2) by (simp add: im)
  have blk: "Iterator_all g fm1 ?it2
          = (case Iterator_all g fm1 (?it2\<lparr>currentPosition := bs\<rparr>) of
               Inl e \<Rightarrow> Inl e
             | Inr rest \<Rightarrow> Inr (rev rs @ rest))"
    by (rule Iterator_all_block[OF g bs(2) fm1(1) l2 p2 fit2 d2])
  have ih: "Iterator_all g fm1 (?it2\<lparr>currentPosition := bs\<rparr>) = Inr (rev (concat (take j rss)))"
  proof (rule Suc.IH)
    show "j \<le> n" using jn by simp
    show "\<And>k. k < j \<Longrightarrow> rss ! k \<noteq> []" using Suc.prems(2) by simp
    show "int (length (it_page (?it2\<lparr>currentPosition := bs\<rparr>))) = bs" using h(1) by simp
  qed (use fm1 in simp_all)
  have tk: "take (Suc j) rss = take j rss @ [rss ! j]"
    using jn nr by (simp add: take_Suc_conv_app_nth)
  have res: "Iterator_all g fm1 ?it2 = Inr (rev rs @ rev (concat (take j rss)))"
    unfolding blk ih by simp
  have "Iterator_all g fm it
          = (case Next g fm it of
               Inl e \<Rightarrow> Inl e
             | Inr (fm1, it1, r) \<Rightarrow>
                 (case Iterator_all g fm1 it1 of Inl e \<Rightarrow> Inl e | Inr rs \<Rightarrow> Inr (r # rs)))"
    using hn by (subst Iterator_all.simps) simp
  also have "\<dots> = Inr (r # rev rs @ rev (concat (take j rss)))"
    unfolding nx by (simp only: sum.case prod.case res)
  also have "\<dots> = Inr (rev (concat (take (Suc j) rss)))"
    by (simp add: tk rj)
  finally show ?case .
qed

lemma Iterator_layout:
  assumes g: "IntSize g = 4" and bs: "8 \<le> bs" "bs < 2 ^ 31"
    and inv: "log_layout g bs m rss"
  obtains m' it where "log_Iterator g m = Inr (m', it)"
    and "Iterator_all g (fileManager m') it = Inr (rev (concat rss))"
proof -
  let ?lf = "logFile m" and ?n = "length rss" and ?c = "nat bs"
  let ?page = "logPage m"
  have bs0: "0 < bs" using bs by simp
  note h = log_layoutD[OF inv]
  have n0: "0 < ?n" using h(1) by simp
  obtain m1 where fl: "log_flush g m = Inr m1" and inv1: "log_layout g bs m1 rss"
    and m1: "logPage m1 = ?page" "logFile m1 = ?lf" "currentBlock m1 = currentBlock m"
    and d1: "file_data (fileManager m1) ?lf
              = take ((?n - 1) * ?c) (file_data (fileManager m) ?lf) @ ?page"
    using log_flush_layout[OF bs0 inv] by metis
  note h1 = log_layoutD[OF inv1]
  let ?fm1 = "fileManager m1"
  let ?d1 = "file_data ?fm1 ?lf"
  let ?blk = "\<lparr>File = ?lf, BlockNumber = int (?n - 1)\<rparr>"
  have cb: "currentBlock m1 = ?blk"
  proof -
    have eq: "int (?n - 1) = int ?n - 1" using n0 by linarith
    show ?thesis unfolding m1(3) h(4) by (simp only: eq)
  qed
  have ld1: "length ?d1 = ?n * ?c" using h1(5) m1 by simp
  have lpage: "length ?page = ?c" using page_holdsD(1)[OF h(7)] by simp
  have e: "(?n - 1) * ?c + ?c = ?n * ?c" using n0
    by (metis Suc_pred' add.commute mult_Suc)
  have lt: "length (take ((?n - 1) * ?c) (file_data (fileManager m) ?lf)) = (?n - 1) * ?c"
  proof -
    have "(?n - 1) * ?c \<le> length (file_data (fileManager m) ?lf)"
      unfolding h(5) by (rule mult_le_mono1) simp
    then show ?thesis by (simp only: length_take min_absorb2)
  qed
  have last_page: "disk_page bs ?d1 (?n - 1) = ?page"
    unfolding d1 using lt lpage by (rule disk_page_last)
  have pages: "page_holds g bs (disk_page bs ?d1 j) (rss ! j)" if "j < ?n" for j
  proof (cases "Suc j < ?n")
    case True
    from h1(6)[OF True] m1 show ?thesis by simp
  next
    case False
    with that have j: "j = ?n - 1" by simp
    have "rss ! j = last rss" unfolding j using h(1) by (simp add: last_conv_nth)
    with last_page h(7) j show ?thesis by simp
  qed
  let ?zero = "replicate ?c (0::byte)"
  have np: "NewPage (blockSize ?fm1) = Inr ?zero" using h1(2) bs0 by (simp add: NewPage_def)
  have ic: "int ?c = bs" using bs0 by simp
  have off: "BlockNumber ?blk * blockSize ?fm1 = int ((?n - 1) * ?c)"
    unfolding h1(2) by (simp only: of_nat_mult ic) simp
  have off0: "0 \<le> BlockNumber ?blk * blockSize ?fm1" by (simp only: off of_nat_0_le_iff)
  have "int (?n - 1) * bs < 2 ^ 63"
    using h1(9,10) bs0 by (intro block_offset_small) simp_all
  then have offlt: "BlockNumber ?blk * blockSize ?fm1 < 2 ^ 63"
    unfolding h1(2) by simp
  have offn: "nat (BlockNumber ?blk * blockSize ?fm1) = (?n - 1) * ?c" by (simp only: off nat_int)
  have room: "nat (BlockNumber ?blk * blockSize ?fm1) + length ?zero
                \<le> length (file_data ?fm1 (File ?blk))"
    unfolding offn using e ld1 by simp
  obtain fm2 where rd: "file_Read g ?fm1 ?blk ?zero
        = Inr (fm2, take (length ?zero)
                      (drop (nat (BlockNumber ?blk * blockSize ?fm1)) (file_data ?fm1 (File ?blk))))"
    and k2: "blockSize fm2 = blockSize ?fm1" "io_fault fm2 = io_fault ?fm1"
    "\<And>n. file_data fm2 n = file_data ?fm1 n"
    using file_Read_ok[OF h1(3) off0 offlt room, of g] by metis
  have rd': "file_Read g ?fm1 ?blk ?zero = Inr (fm2, ?page)"
  proof -
    have "take (length ?zero) (drop (nat (BlockNumber ?blk * blockSize ?fm1))
            (file_data ?fm1 (File ?blk))) = disk_page bs ?d1 (?n - 1)"
      unfolding offn by (simp add: disk_page_def)
    with rd last_page show ?thesis by simp
  qed
  let ?b = "bs - int (length (block_image (last rss)))"
  note hp = page_holdsD[OF h(7)]
  let ?it = "\<lparr>it_block = ?blk, it_page = ?page, currentPosition = ?b, boundary = ?b\<rparr>"
  have ni: "NewIterator g ?fm1 ?blk = Inr (fm2, ?it)"
    using np rd' hp(3) by (simp add: NewIterator_def moveToBlock_def)
  have li: "log_Iterator g m = Inr (m1\<lparr>fileManager := fm2\<rparr>, ?it)"
    using fl ni cb by (simp add: log_Iterator_def)
  have fm2: "blockSize fm2 = bs" "\<forall>op. \<not> io_fault fm2 op" "file_data fm2 ?lf = ?d1"
    using k2 h1(2,3) by simp_all
  have blk: "Iterator_all g fm2 ?it
          = (case Iterator_all g fm2 (?it\<lparr>currentPosition := bs\<rparr>) of
               Inl e \<Rightarrow> Inl e
             | Inr rest \<Rightarrow> Inr (rev (last rss) @ rest))"
  proof (rule Iterator_all_block[OF g bs(2) fm2(1)])
    show "int (length (it_page ?it)) = bs" using hp(1) by simp
    show "currentPosition ?it = ?b" by simp
    show "4 + int (length (block_image (last rss))) \<le> bs" by (rule hp(2))
    have "nat ?b = nat bs - length (block_image (last rss))" using hp(2) by linarith
    with hp(4) show "drop (nat (currentPosition ?it)) (it_page ?it) = block_image (last rss)"
      by simp
  qed
  have rest: "Iterator_all g fm2 (?it\<lparr>currentPosition := bs\<rparr>)
                = Inr (rev (concat (take (?n - 1) rss)))"
  proof (rule Iterator_all_blocks[OF g bs0 bs(2) ld1 _ pages h(10), where lf = ?lf])
    show "?n \<le> length rss" by simp
    show "?n - 1 \<le> ?n" by simp
    show "rss ! j \<noteq> []" if "j < ?n - 1" for j
    proof -
      from that have "1 < ?n" by simp
      from h(8)[OF this] have ne: "[] \<notin> set rss" .
      from that have "j < length rss" by simp
      then have "rss ! j \<in> set rss" by (rule nth_mem)
      with ne show ?thesis by auto
    qed
    show "int (length (it_page (?it\<lparr>currentPosition := bs\<rparr>))) = bs" using hp(1) by simp
  qed (use fm2 in simp_all)
  have cc: "concat rss = concat (take (?n - 1) rss) @ last rss"
  proof -
    have "concat (butlast rss @ [last rss]) = concat (butlast rss) @ last rss" by simp
    then have "concat rss = concat (butlast rss) @ last rss" using h(1) by simp
    then show ?thesis by (simp add: butlast_conv_take)
  qed
  have "Iterator_all g fm2 ?it = Inr (rev (concat rss))"
    unfolding blk rest cc by simp
  with li that show ?thesis by simp
qed

theorem log_iterator_roundtrip_32:
  assumes g: "IntSize g = 4" and bs: "8 \<le> bs" "bs < 2 ^ 31"
    and fm: "blockSize fm = bs" "\<forall>op. \<not> io_fault fm op" "file_data fm lf = []"
    and fits: "\<forall>r \<in> set (appended ops). int (length r) + 8 \<le> bs"
    and room: "int (length (appended ops)) + 1 < 2 ^ 31"
  shows "\<exists>m0 m m' it. log_NewManager g fm lf = Inr m0 \<and> log_run g m0 ops = Inr m
           \<and> log_Iterator g m = Inr (m', it)
           \<and> Iterator_all g (fileManager m') it = Inr (rev (appended ops))"
proof -
  obtain m0 where nm: "log_NewManager g fm lf = Inr m0" and i0: "log_layout g bs m0 [[]]"
    using NewManager_layout[OF g bs fm] by metis
  from room have room0: "int (length [[]::byte list list]) + int (length (appended ops)) < 2 ^ 31"
    by simp
  from log_run_layout[OF g bs i0 fits room0] obtain m rss where
    run: "log_run g m0 ops = Inr m" and inv: "log_layout g bs m rss"
    and c: "concat rss = appended ops" by auto
  obtain m' it where "log_Iterator g m = Inr (m', it)"
    and "Iterator_all g (fileManager m') it = Inr (rev (concat rss))"
    using Iterator_layout[OF g bs inv] by metis
  with nm run c show ?thesis by auto
qed

section \<open>Appending to the log and reading it back\<close>

text \<open>
  C1. Append places a record of k bytes at \<open>boundary - (k + int_size)\<close>, the length
  first and the payload after it, up to the old boundary, and stores that position as
  the new boundary. On amd64 the code does otherwise: on a fresh log with blocks of 400
  bytes (boundary 400, \<open>int_size\<close> 8) a record of 6 bytes belongs at 386; the code
  stores the boundary 390 (bytes 1, 134), writes the 8-byte length at 390 and the first
  two bytes of the payload at 398, and drops the other four.
\<close>

theorem Append_amd64_record_overruns_boundary:
  "(case log_NewManager GOAMD64 (file_NewManager Map.empty 400 (\<lambda>_. False)) ''testlog'' of
      Inl e \<Rightarrow> Inl e
    | Inr m \<Rightarrow> map_sum id (\<lambda>(m', l). (logPage m', l)) (log_Append GOAMD64 m [1, 2, 3, 4, 5, 6]))
   = Inr ([0, 0, 0, 0, 0, 0, 1, 134] @ replicate 382 0 @ [0, 0, 0, 0, 0, 0, 0, 6] @ [1, 2], 1)"
  by code_simp

text \<open>
  C2. An iterator created after the records were appended yields them, newest first.
  On amd64 the code does otherwise: after the one record of C1 the iterator has a next
  record, and Next panics on it (the length 6 read at 390 asks for the bytes up to 404
  of a page of 400).
\<close>

theorem Iterator_amd64_panics_on_first_record:
  "(case log_NewManager GOAMD64 (file_NewManager Map.empty 400 (\<lambda>_. False)) ''testlog'' of
      Inl e \<Rightarrow> Inl e
    | Inr m \<Rightarrow>
        (case log_Append GOAMD64 m [1, 2, 3, 4, 5, 6] of
           Inl e \<Rightarrow> Inl e
         | Inr (m1, l) \<Rightarrow>
             (case log_Iterator GOAMD64 m1 of
                Inl e \<Rightarrow> Inl e
              | Inr (m2, iter) \<Rightarrow>
                  Inr (HasNext (fileManager m2) iter,
                       map_sum id (\<lambda>(fm, iter', r). r) (Next GOAMD64 (fileManager m2) iter)))))
   = Inr (True, Inl Panic)"
  by code_simp

section \<open>Recovery\<close>

text \<open>
  C4. recover() keeps the set of the transactions that have a Commit or Rollback record
  later in the log and undoes exactly the update records of the other transactions. The
  code does otherwise (on 386, where the log itself is read back correctly): the log
  holds SetInt(7, data block 5, offset 0, old value 42) and then Rollback(7); the
  Rollback record is decoded with the transaction number 3 (NewRollbackRecord reads at
  offset \<open>0 * IntSize\<close>, the tag), so 3 is put in the set and the update of the
  finished transaction 7 is undone: recovery pins the block, sets 42 and unpins.
\<close>

theorem Recover_undoes_rolled_back_transaction:
  "RollbackRecord_bytes GO386 7 = Inr [0, 0, 0, 3, 0, 0, 0, 7]
   \<and> CreateLogRecord GO386 [0, 0, 0, 3, 0, 0, 0, 7] = Inr (RollbackRecord 3)
   \<and> (case log_NewManager GO386 (file_NewManager Map.empty 400 (\<lambda>_. False)) ''log'' of
        Inl e \<Rightarrow> Inl e
      | Inr m \<Rightarrow>
          (case WriteSetIntToLog GO386 m 7 \<lparr>File = ''data'', BlockNumber = 5\<rparr> 0 42 of
             Inl e \<Rightarrow> Inl e
           | Inr (m1, l1) \<Rightarrow>
               (case WriteRollbackToLog GO386 m1 7 of
                  Inl e \<Rightarrow> Inl e
                | Inr (m2, l2) \<Rightarrow>
                    map_sum id rm_calls
                      (Recover GO386 (\<lambda>_ _. False)
                         \<lparr>rm_logManager = m2, rm_txNum = 8, rm_calls = []\<rparr>))))
     = Inr [TxPin \<lparr>File = ''data'', BlockNumber = 5\<rparr>,
            TxSetInt \<lparr>File = ''data'', BlockNumber = 5\<rparr> 0 42 False,
            TxUnpin \<lparr>File = ''data'', BlockNumber = 5\<rparr>,
            FlushAll 8]"
  by code_simp

text \<open>
  On amd64 recover() does not reach the end at all: WriteCheckpointToLog makes a slice
  of 4 bytes and SetInt writes 8, which panics, also on an empty log.
\<close>

lemma Recover_amd64_panics_at_checkpoint:
  "(case log_NewManager GOAMD64 (file_NewManager Map.empty 400 (\<lambda>_. False)) ''log'' of
      Inl e \<Rightarrow> Inl e
    | Inr m \<Rightarrow>
        map_sum id rm_calls
          (Recover GOAMD64 (\<lambda>_ _. False) \<lparr>rm_logManager = m, rm_txNum = 1, rm_calls = []\<rparr>))
   = Inl Panic"
  by code_simp

text \<open>
  A panic of Next is not an error value and is not swallowed: on amd64, with one Commit
  record in the log, Next panics (as in C2) and doRecover panics with it.
\<close>

lemma doRecover_amd64_panics_in_Next:
  "(case log_NewManager GOAMD64 (file_NewManager Map.empty 400 (\<lambda>_. False)) ''log'' of
      Inl e \<Rightarrow> Inl e
    | Inr m \<Rightarrow>
        (case WriteCommitToLog GOAMD64 m 1 of
           Inl e \<Rightarrow> Inl e
         | Inr (m1, l1) \<Rightarrow>
             (case log_Iterator GOAMD64 m1 of
                Inl e \<Rightarrow> Inl e
              | Inr (m2, iter) \<Rightarrow>
                  Inr (HasNext (fileManager m2) iter,
                       map_sum id (\<lambda>_. ()) (Next GOAMD64 (fileManager m2) iter),
                       map_sum id rm_calls
                         (doRecover GOAMD64 (\<lambda>_ _. False)
                            \<lparr>rm_logManager = m1, rm_txNum = 2, rm_calls = []\<rparr>)))))
   = Inr (True, Inl Panic, Inl Panic)"
  by code_simp

text \<open>
  C5. An I/O error raised while recovery iterates the log surfaces to the caller of
  recover(). The code does otherwise: the log has two blocks of 32 bytes (three Commit
  records), and the disk fails every read of the log's block 0. The iterator yields the
  newest record from block 1 and has a next one; that Next fails with the read error;
  doRecover returns nil at that point, and Recover goes on to write the checkpoint and
  returns no error.
\<close>

theorem Recover_swallows_iterator_error:
  "(case log_NewManager GO386 (file_NewManager Map.empty 32 (\<lambda>op. op = OpRead ''log'' 0)) ''log'' of
      Inl e \<Rightarrow> Inl e
    | Inr m \<Rightarrow>
        (case WriteCommitToLog GO386 m 1 of
           Inl e \<Rightarrow> Inl e
         | Inr (m1, l1) \<Rightarrow>
             (case WriteCommitToLog GO386 m1 2 of
                Inl e \<Rightarrow> Inl e
              | Inr (m2, l2) \<Rightarrow>
                  (case WriteCommitToLog GO386 m2 3 of
                     Inl e \<Rightarrow> Inl e
                   | Inr (m3, l3) \<Rightarrow>
                       (case log_Iterator GO386 m3 of
                          Inl e \<Rightarrow> Inl e
                        | Inr (m4, iter) \<Rightarrow>
                            (case Next GO386 (fileManager m4) iter of
                               Inl e \<Rightarrow> Inl e
                             | Inr (fm5, iter5, r) \<Rightarrow>
                                 Inr (r, HasNext fm5 iter5,
                                      map_sum id (\<lambda>_. ()) (Next GO386 fm5 iter5),
                                      map_sum id rm_calls
                                        (Recover GO386 (\<lambda>_ _. False)
                                           \<lparr>rm_logManager = m3, rm_txNum = 4,
                                            rm_calls = []\<rparr>))))))))
   = Inr ([0, 0, 0, 2, 0, 0, 0, 3], True, Inl CannotReadData, Inr [FlushAll 4])"
  by code_simp

end
